theory Spec2Isabelle
  imports Complex_Main "HOL-Library.AList" "HOL-Library.Char_ord" "HOL-Library.List_Lexorder"
    "HOL-Library.Product_Lexorder"
begin

section \<open>Numbers, errors and arrays\<close>

text \<open>
  The Python sources compute with IEEE doubles. The embedding idealises a finite double
  as a \<^typ>\<open>real\<close> (no rounding) and keeps the one non-finite value the sources test for,
  \<^verbatim>\<open>float('inf')\<close>, as a constructor of its own. Negative infinity and NaN are not
  represented; a computation that would produce them yields the error \<open>NotFinite\<close>.
\<close>

datatype xreal = Fin real | PInf

datatype error =
    PyException string
  | AssertionError
  | KeyError
  | IndexError
  | ValueError
  | RuntimeError
  | ZeroDivisionError
  | LinAlgError
  | NotFinite

text \<open>
  A numpy array is a shape together with the entry at every multi-index; only the
  entries at indices inside the shape are meaningful.
\<close>

record ndarray =
  shape :: "nat list"
  item :: "nat list \<Rightarrow> real"

section \<open>size\_history.py\<close>

text \<open>
  \<^verbatim>\<open>W(n, b, j)\<close>: the Polanski--Kimmel weights. The source recurses from \<open>j\<close> to
  \<open>j - 2\<close> and \<open>j - 1\<close> and stops at \<open>j == 2\<close> and \<open>j == 3\<close>; for
  \<open>j < 2\<close> the recursion never reaches a base case and Python gives up with a
  RuntimeError (maximum recursion depth).
\<close>

fun W :: "nat \<Rightarrow> nat \<Rightarrow> nat \<Rightarrow> error + real" where
  "W n b j =
     (if j < 2 then Inl RuntimeError
      else if j = 2 then Inr (6 / real (n + 1))
      else if j = 3 then Inr (30 * (real n - 2 * real b) / real (n + 1) / real (n + 2))
      else
        (let jj = real (j - 2) in
         case W n b (j - 2) of
           Inl e \<Rightarrow> Inl e
         | Inr w0 \<Rightarrow>
             (case W n b (j - 1) of
                Inl e \<Rightarrow> Inl e
              | Inr w1 \<Rightarrow>
                  Inr (w0 * - (1 + jj) * (3 + 2 * jj) * (real n - jj) / jj / (2 * jj - 1)
                            / (real n + jj + 1)
                       + w1 * (3 + 2 * jj) * (real n - 2 * real b) / jj / (real n + jj + 1)))))"

declare W.simps [simp del]

text \<open>
  \<^verbatim>\<open>class TruncatedSizeHistory\<close> with its subclass
  \<^verbatim>\<open>ConstantTruncatedSizeHistory\<close> (fields \<open>n_max\<close>, \<open>tau\<close>, \<open>N\<close>).
\<close>

record TruncatedSizeHistory =
  n_max :: nat
  tau :: xreal

record ConstantTruncatedSizeHistory = TruncatedSizeHistory +
  N :: real

text \<open>The constructor: \<^verbatim>\<open>if N <= 0.0: raise Exception("N must be positive")\<close>.\<close>

definition ConstantTruncatedSizeHistory_init ::
  "nat \<Rightarrow> xreal \<Rightarrow> real \<Rightarrow> error + ConstantTruncatedSizeHistory" where
  "ConstantTruncatedSizeHistory_init n t Nv =
     (if Nv \<le> 0 then Inl (PyException ''N must be positive'')
      else Inr \<lparr>n_max = n, tau = t, N = Nv\<rparr>)"

text \<open>
  \<^verbatim>\<open>etjj\<close> of the constant history. \<^verbatim>\<open>j = np.arange(2, n_max + 1)\<close>, so the entry
  for \<open>j\<close> lineages sits at position \<open>j - 2\<close>. \<^verbatim>\<open>binom(j, 2)\<close> is the binomial
  coefficient as a float, \<^verbatim>\<open>-expm1(-x)\<close> is \<open>1 - exp (-x)\<close>.
\<close>

definition etjj_entry :: "xreal \<Rightarrow> real \<Rightarrow> nat \<Rightarrow> real" where
  "etjj_entry t Nv j =
     (let denom = real (j choose 2) / Nv in
      case t of
        PInf \<Rightarrow> 1 / denom
      | Fin tv \<Rightarrow>
          (let scaled_time = denom * tv;
               num = - (exp (- scaled_time) - 1)
           in num / denom))"

definition etjj :: "ConstantTruncatedSizeHistory \<Rightarrow> real list" where
  "etjj h = map (etjj_entry (tau h) (N h)) [2 ..< n_max h + 1]"

text \<open>\<^verbatim>\<open>scaled_time\<close> of the constant history: \<^verbatim>\<open>self.tau / self.N\<close>.\<close>

definition scaled_time :: "ConstantTruncatedSizeHistory \<Rightarrow> error + xreal" where
  "scaled_time h =
     (if N h = 0 then Inl ZeroDivisionError
      else
        (case tau h of
           Fin tv \<Rightarrow> Inr (Fin (tv / N h))
         | PInf \<Rightarrow> (if 0 < N h then Inr PInf else Inl NotFinite)))"

text \<open>
  \<^verbatim>\<open>_before_tmrca\<close>: \<open>tau\<close> minus the weighted sum of the polymorphic entries.
  The partial dictionary holds finite values; \<open>inf - x\<close> is \<open>inf\<close>.
\<close>

definition xminus :: "xreal \<Rightarrow> real \<Rightarrow> xreal" where
  "xminus t s = (case t of Fin tv \<Rightarrow> Fin (tv - s) | PInf \<Rightarrow> PInf)"

definition before_tmrca :: "nat \<Rightarrow> xreal \<Rightarrow> (nat \<times> nat \<Rightarrow> real) \<Rightarrow> xreal" where
  "before_tmrca n t partial_sfs =
     xminus t (sum_list (map (\<lambda>b. partial_sfs (b, n) * real b / real n) [1 ..< n]))"

text \<open>
  The matrix \<open>ww\<close> filled by the double loop of \<^verbatim>\<open>sfs\<close>: row \<open>i - 2\<close>, column
  \<open>j - 1\<close> holds \<open>W(n_max, j, i)\<close>. An error of \<open>W\<close> aborts the loop.
\<close>

fun collect :: "(error + 'a) list \<Rightarrow> error + 'a list" where
  "collect [] = Inr []"
| "collect (x # xs) =
     (case x of
        Inl e \<Rightarrow> Inl e
      | Inr v \<Rightarrow> (case collect xs of Inl e \<Rightarrow> Inl e | Inr vs \<Rightarrow> Inr (v # vs)))"

definition ww_matrix :: "nat \<Rightarrow> error + real list list" where
  "ww_matrix n =
     collect (map (\<lambda>i. collect (map (\<lambda>j. W n j i) [1 ..< n])) [2 ..< n + 1])"

text \<open>
  \<^verbatim>\<open>bv = (etjj[:, None] * ww).sum(axis=0)\<close>: entry \<open>c\<close> is the sum over the rows
  \<open>r\<close> of \<open>etjj[r] * ww[r, c]\<close>.
\<close>

definition bv_vector :: "nat \<Rightarrow> real list \<Rightarrow> real list list \<Rightarrow> real list" where
  "bv_vector n et ww =
     map (\<lambda>c. sum_list (map (\<lambda>r. et ! r * (ww ! r) ! c) [0 ..< n - 1])) [0 ..< n - 1]"

text \<open>
  \<^verbatim>\<open>sfs\<close>: the dictionary from \<open>(derived, total)\<close> to the expected branch length.
  \<open>n_max = 0\<close> asks numpy for an array of negative dimension, a ValueError.
\<close>

definition sfs_of :: "nat \<Rightarrow> xreal \<Rightarrow> real list \<Rightarrow> error + (nat \<times> nat \<rightharpoonup> xreal)" where
  "sfs_of n t et =
     (if n = 1 then Inr [(1, 1) \<mapsto> t]
      else if n = 0 then Inl ValueError
      else
        (case ww_matrix n of
           Inl e \<Rightarrow> Inl e
         | Inr ww \<Rightarrow>
             (let bv = bv_vector n et ww;
                  ret = (\<lambda>k. if snd k = n \<and> 1 \<le> fst k \<and> fst k < n
                                then Some (bv ! (fst k - 1)) else None);
                  mono = before_tmrca n t (\<lambda>k. case ret k of Some v \<Rightarrow> v | None \<Rightarrow> 0)
              in Inr ((\<lambda>k. map_option Fin (ret k))((n, n) \<mapsto> mono)))))"

definition sfs :: "ConstantTruncatedSizeHistory \<Rightarrow> error + (nat \<times> nat \<rightharpoonup> xreal)" where
  "sfs h = sfs_of (n_max h) (tau h) (etjj h)"

section \<open>moran\_model.py\<close>

type_synonym matrix = "nat \<Rightarrow> nat \<Rightarrow> real"

text \<open>
  \<^verbatim>\<open>rate_matrix(n)\<close>: the tridiagonal generator on the counts \<open>0..n\<close>, with
  \<open>diag[i] = i * (n - i) / 2\<close> on both off-diagonals of row \<open>i\<close> and
  \<open>-2 * diag[i]\<close> on the diagonal.
\<close>

definition rate_matrix :: "nat \<Rightarrow> matrix" where
  "rate_matrix n r c =
     (let diag = (\<lambda>i. real i * (real n - real i) / 2) in
      if n < r \<or> n < c then 0
      else if c = r + 1 \<or> r = c + 1 then diag r
      else if r = c then - 2 * diag r
      else 0)"

text \<open>
  \<^verbatim>\<open>np.linalg.eig\<close> and \<^verbatim>\<open>np.linalg.inv\<close> are numpy's; the model takes them as
  parameters. Both get the dimension with the matrix; \<open>eig\<close> returns the eigenvalues
  and the matrix of eigenvectors, \<open>inv\<close> fails on a singular matrix.
\<close>

record linalg =
  eig :: "nat \<Rightarrow> matrix \<Rightarrow> (nat \<Rightarrow> real) \<times> matrix"
  inv :: "nat \<Rightarrow> matrix \<Rightarrow> error + matrix"

definition moran_eigensystem ::
  "linalg \<Rightarrow> nat \<Rightarrow> error + (matrix \<times> (nat \<Rightarrow> real) \<times> matrix)" where
  "moran_eigensystem la n =
     (let M = rate_matrix n;
          (d, P) = eig la (n + 1) M
      in case inv la (n + 1) P of
           Inl e \<Rightarrow> Inl e
         | Inr Pinv \<Rightarrow> Inr (P, d, Pinv))"

text \<open>The numpy operations \<^verbatim>\<open>dot\<close>, \<^verbatim>\<open>diag\<close>, \<^verbatim>\<open>tensordot\<close> and \<^verbatim>\<open>transpose\<close>.\<close>

definition dot :: "nat \<Rightarrow> matrix \<Rightarrow> matrix \<Rightarrow> matrix" where
  "dot m A B r c = (\<Sum>k<m. A r k * B k c)"

definition diag :: "(nat \<Rightarrow> real) \<Rightarrow> matrix" where
  "diag d r c = (if r = c then d r else 0)"

definition insert_at :: "nat \<Rightarrow> 'a \<Rightarrow> 'a list \<Rightarrow> 'a list" where
  "insert_at k x xs = take k xs @ [x] @ drop k xs"

definition remove_at :: "nat \<Rightarrow> 'a list \<Rightarrow> 'a list" where
  "remove_at k xs = take k xs @ drop (Suc k) xs"

text \<open>
  \<^verbatim>\<open>tensordot(v, M, axes=([axis], [1]))\<close> for a square \<open>m\<close> by \<open>m\<close> matrix:
  the contracted axis disappears from \<open>v\<close> and the free axis of \<open>M\<close> is appended.
  numpy raises a ValueError unless the two contracted axes have the same size.
\<close>

definition tensordot :: "ndarray \<Rightarrow> nat \<Rightarrow> matrix \<Rightarrow> nat \<Rightarrow> error + ndarray" where
  "tensordot v m M axis =
     (if shape v ! axis \<noteq> m then Inl ValueError
      else Inr \<lparr>shape = remove_at axis (shape v) @ [m],
                item = (\<lambda>idx. \<Sum>j<m. item v (insert_at axis j (butlast idx)) * M (last idx) j)\<rparr>)"

text \<open>
  \<^verbatim>\<open>np.transpose(a, axes)\<close>: axis \<open>i\<close> of the result is axis \<open>axes[i]\<close> of
  \<open>a\<close>. \<open>pos k axes\<close> is the place of \<open>k\<close> in \<open>axes\<close>.
\<close>

fun pos :: "nat \<Rightarrow> nat list \<Rightarrow> nat" where
  "pos k [] = 0"
| "pos k (a # as) = (if a = k then 0 else Suc (pos k as))"

definition transpose_nd :: "ndarray \<Rightarrow> nat list \<Rightarrow> error + ndarray" where
  "transpose_nd a axes =
     (if length axes \<noteq> length (shape a) \<or> set axes \<noteq> {..<length (shape a)}
      then Inl ValueError
      else Inr \<lparr>shape = map (\<lambda>i. shape a ! i) axes,
                item = (\<lambda>idx. item a (map (\<lambda>k. idx ! pos k axes) [0 ..< length axes]))\<rparr>)"

text \<open>
  The axes \<^verbatim>\<open>range(axis) + [len(v.shape)-1] + range(axis, len(v.shape)-1)\<close> that
  \<^verbatim>\<open>moran_action\<close> hands to \<^verbatim>\<open>np.transpose\<close>: the last axis moves to \<open>axis\<close>.
\<close>

definition move_last :: "nat \<Rightarrow> nat \<Rightarrow> nat list" where
  "move_last axis vlen = [0 ..< axis] @ [vlen - 1] @ [axis ..< vlen - 1]"

text \<open>
  \<^verbatim>\<open>moran_action(t, v, axis)\<close>. The lineage count is read off the array:
  \<^verbatim>\<open>n = v.shape[axis] - 1\<close>. An axis beyond the array's rank is an IndexError; an
  axis of size 0 gives \<open>n = -1\<close>, for which scipy refuses to build the rate matrix.
  The axis is a natural number here: negative axes are not modelled.
\<close>

definition moran_action :: "linalg \<Rightarrow> real \<Rightarrow> ndarray \<Rightarrow> nat \<Rightarrow> error + ndarray" where
  "moran_action la t v axis =
     (if length (shape v) \<le> axis then Inl IndexError
      else if shape v ! axis = 0 then Inl ValueError
      else
        (let n = shape v ! axis - 1 in
         case moran_eigensystem la n of
           Inl e \<Rightarrow> Inl e
         | Inr (P, d, Pinv) \<Rightarrow>
             (let D = diag (\<lambda>k. exp (t * d k));
                  vlen = length (shape v)
              in case tensordot v (n + 1) (dot (n + 1) P (dot (n + 1) D Pinv)) axis of
                   Inl e \<Rightarrow> Inl e
                 | Inr ret \<Rightarrow>
                     (case transpose_nd ret (move_last axis vlen) of
                        Inl e \<Rightarrow> Inl e
                      | Inr ret' \<Rightarrow>
                          if shape ret' = shape v then Inr ret' else Inl AssertionError))))"

text \<open>
  \<^verbatim>\<open>transition_prob(v, axis)\<close> of a size history: the input itself when the scaled
  time is \<open>0.0\<close>, the Moran action otherwise. An infinite scaled time leaves the
  real-number model (the exponentials of \<open>inf * 0\<close> are NaN).
\<close>

definition transition_prob ::
  "linalg \<Rightarrow> ConstantTruncatedSizeHistory \<Rightarrow> ndarray \<Rightarrow> nat \<Rightarrow> error + ndarray" where
  "transition_prob la h v axis =
     (case scaled_time h of
        Inl e \<Rightarrow> Inl e
      | Inr PInf \<Rightarrow> Inl NotFinite
      | Inr (Fin s) \<Rightarrow> if s = 0 then Inr v else moran_action la s v axis)"

section \<open>demography.py: the graph and its observation state\<close>

text \<open>
  \<^verbatim>\<open>class Demography(nx.DiGraph)\<close>. Edges point from the parent population to the child.
  \<open>node_data\<close> holds, per node, the integer attributes of its attribute dictionary
  (\<^verbatim>\<open>'lineages'\<close>, \<^verbatim>\<open>'derived'\<close>, \<^verbatim>\<open>'ancestral'\<close>); the split probabilities of an admixed
  node are kept in a field of their own, and \<open>events\<close> is \<^verbatim>\<open>self.graph['events']\<close>, each
  event a tuple of edges. The two last fields are the state of the cached properties
  \<^verbatim>\<open>n_derived_subtended_by\<close> and \<^verbatim>\<open>totalSfsSum\<close>.
\<close>

type_synonym node = string
type_synonym attrs = "string \<rightharpoonup> int"
type_synonym edge = "node \<times> node"

record demography =
  nodes :: "node list"
  edges :: "edge list"
  node_data :: "node \<rightharpoonup> attrs"
  splitprobs :: "node \<rightharpoonup> (node \<rightharpoonup> real)"
  events :: "edge list list"
  n_derived_cached :: bool
  totalSfsSum_cache :: "real option"

text \<open>\<^verbatim>\<open>leaves\<close>: the nodes of out-degree 0, as a duplicate-free list.\<close>

definition leaves :: "demography \<Rightarrow> node list" where
  "leaves g = remdups [k \<leftarrow> nodes g. k \<notin> set (map fst (edges g))]"

definition successors :: "demography \<Rightarrow> node \<Rightarrow> node list" where
  "successors g v = remdups [snd ed. ed \<leftarrow> edges g, fst ed = v]"

text \<open>\<^verbatim>\<open>node_data[v]['lineages']\<close>, a KeyError where the node or the attribute is missing.\<close>

definition lineages_of :: "demography \<Rightarrow> node \<Rightarrow> error + int" where
  "lineages_of g v =
     (case node_data g v of
        None \<Rightarrow> Inl KeyError
      | Some nd \<Rightarrow> (case nd ''lineages'' of None \<Rightarrow> Inl KeyError | Some l \<Rightarrow> Inr l))"

text \<open>
  \<^verbatim>\<open>root\<close>: the node of in-degree 0, which must be the only one
  (\<^verbatim>\<open>assert len(nds) == 1\<close>).
\<close>

definition root_of :: "demography \<Rightarrow> error + node" where
  "root_of g =
     (case remdups [k \<leftarrow> nodes g. k \<notin> set (map snd (edges g))] of
        [r] \<Rightarrow> Inr r
      | _ \<Rightarrow> Inl AssertionError)"

text \<open>
  \<^verbatim>\<open>nx.dfs_postorder_nodes(G, source)\<close>, as networkx runs it: a stack of nodes, each with
  the successors it has not looked at yet. The next successor of the node on top is pushed
  when it is new and skipped when it was visited before; a node whose successors are used
  up is popped and yielded. The arguments are the stack, the visited nodes and the nodes
  yielded so far.
\<close>

function dfs_loop :: "demography \<Rightarrow> (node \<times> node list) list \<Rightarrow> node list \<Rightarrow> node list \<Rightarrow> node list" where
  "dfs_loop g [] visited post = post"
| "dfs_loop g ((u, []) # stack) visited post = dfs_loop g stack visited (post @ [u])"
| "dfs_loop g ((u, c # cs) # stack) visited post =
     (if c \<in> set visited then dfs_loop g ((u, cs) # stack) visited post
      else dfs_loop g ((c, successors g c) # (u, cs) # stack) (c # visited) post)"
  by pat_completeness auto

termination
proof (relation "inv_image (less_than <*lex*> less_than)
          (\<lambda>(g, stack, visited, post).
             (card ((snd ` set (edges g) \<union> (\<Union>p\<in>set stack. set (snd p))) - set visited),
              sum_list (map (\<lambda>p. Suc (length (snd p))) stack)))", goal_cases)
  case 1
  show ?case by (intro wf_inv_image wf_lex_prod wf_less_than)
next
  case (2 g u stack visited post)
  show ?case by simp
next
  case (3 g u c cs stack visited post)
  then show ?case by (simp add: insert_Diff_if)
next
  case (4 g u c cs stack visited post)
  let ?A = "snd ` set (edges g) \<union> (set cs \<union> (\<Union>p\<in>set stack. set (snd p)))"
  have s: "set (successors g c) \<subseteq> snd ` set (edges g)"
    by (auto simp: successors_def)
  then have "snd ` set (edges g) \<union> (set (successors g c) \<union> (set cs \<union> (\<Union>p\<in>set stack. set (snd p)))) = ?A"
    by blast
  moreover have "card (?A - insert c (set visited)) < card (insert c ?A - set visited)"
  proof (rule psubset_card_mono)
    show "finite (insert c ?A - set visited)" by simp
    from 4 show "?A - insert c (set visited) \<subset> insert c ?A - set visited" by blast
  qed
  ultimately show ?case by simp
qed

definition dfs_postorder_nodes :: "demography \<Rightarrow> node \<Rightarrow> node list" where
  "dfs_postorder_nodes g source = dfs_loop g [(source, successors g source)] [source] []"

text \<open>
  The loop of \<^verbatim>\<open>n_lineages_at_node\<close> over the nodes in post-order, filling the
  dictionary \<^verbatim>\<open>n_lin_dict\<close>: the \<^verbatim>\<open>'lineages'\<close> attribute at a leaf, the sum of the entries
  of the successors elsewhere, a KeyError where a successor has no entry yet.
\<close>

fun n_lin_fill :: "demography \<Rightarrow> node list \<Rightarrow> (node \<rightharpoonup> int) \<Rightarrow> error + (node \<rightharpoonup> int)" where
  "n_lin_fill g [] n_lin_dict = Inr n_lin_dict"
| "n_lin_fill g (v # vs) n_lin_dict =
     (if v \<in> set (leaves g) then
        (case lineages_of g v of
           Inl e \<Rightarrow> Inl e
         | Inr l \<Rightarrow> n_lin_fill g vs (n_lin_dict(v \<mapsto> l)))
      else
        (case collect (map (\<lambda>c. case n_lin_dict c of None \<Rightarrow> Inl KeyError | Some n \<Rightarrow> Inr n)
                         (successors g v)) of
           Inl e \<Rightarrow> Inl e
         | Inr ls \<Rightarrow> n_lin_fill g vs (n_lin_dict(v \<mapsto> sum_list ls))))"

text \<open>
  \<^verbatim>\<open>n_lineages_at_node[v]\<close>: the dictionary is built from the root, so it exists only on
  a graph with exactly one root, and it has an entry for the nodes the search reaches.
\<close>

definition n_lineages_at_node :: "demography \<Rightarrow> node \<Rightarrow> error + int" where
  "n_lineages_at_node g v =
     (case root_of g of
        Inl e \<Rightarrow> Inl e
      | Inr r \<Rightarrow>
          (case n_lin_fill g (dfs_postorder_nodes g r) Map.empty of
             Inl e \<Rightarrow> Inl e
           | Inr n_lin_dict \<Rightarrow>
               (case n_lin_dict v of None \<Rightarrow> Inl KeyError | Some n \<Rightarrow> Inr n)))"

subsection \<open>The admixture tensor\<close>

text \<open>
  \<^verbatim>\<open>scipy.misc.comb(N, k)\<close> on floats: the binomial coefficient, and \<open>0\<close> unless
  \<open>0 \<le> k \<le> N\<close>.
\<close>

definition comb :: "int \<Rightarrow> int \<Rightarrow> real" where
  "comb n k = (if 0 \<le> k \<and> k \<le> n then real (nat n choose nat k) else 0)"

text \<open>
  \<^verbatim>\<open>scipy.signal.fftconvolve(a, b)\<close>: the full convolution, of length
  \<open>len a + len b - 1\<close>, computed exactly (the source goes through a Fourier transform).
\<close>

definition convolve :: "real list \<Rightarrow> real list \<Rightarrow> real list" where
  "convolve a b =
     (if a = [] \<or> b = [] then []
      else map (\<lambda>k. \<Sum>i<length a. if i \<le> k \<and> k - i < length b then a ! i * b ! (k - i) else 0)
             [0 ..< length a + length b - 1])"

text \<open>
  One factor of \<^verbatim>\<open>to_convolve\<close> in \<^verbatim>\<open>der_in_admixture_node\<close>: the probability that
  \<open>der_from_parent = 0..n_from_parent\<close> of the lineages drawn from a parent are derived.
\<close>

definition hypergeom_kernel :: "nat \<Rightarrow> nat \<Rightarrow> nat \<Rightarrow> real list" where
  "hypergeom_kernel n_node n_from_parent der_in_parent =
     (let anc_in_parent = int n_node - int der_in_parent in
      map (\<lambda>der_from_parent.
             comb (int der_in_parent) (int der_from_parent)
             * comb anc_in_parent (int n_from_parent - int der_from_parent)
             / comb (int n_node) (int n_from_parent))
        [0 ..< n_from_parent + 1])"

definition der_in_admixture_node :: "nat \<Rightarrow> nat \<Rightarrow> nat \<Rightarrow> nat \<Rightarrow> error + real list" where
  "der_in_admixture_node n_from_1 n_from_2 der_in_1 der_in_2 =
     (let n_node = n_from_1 + n_from_2;
          ret = convolve (hypergeom_kernel n_node n_from_1 der_in_1)
                         (hypergeom_kernel n_node n_from_2 der_in_2)
      in if length ret = n_node + 1 then Inr ret else Inl AssertionError)"

text \<open>
  One entry of the tensor of \<^verbatim>\<open>admixture_prob\<close>: the innermost loop adds, for every
  \<open>n_from_1\<close> in \<open>0..n_node\<close>, the binomial weight times the entry \<open>child_der\<close> of
  \<^verbatim>\<open>der_in_admixture_node\<close>.
\<close>

definition admixture_entry :: "nat \<Rightarrow> real \<Rightarrow> real \<Rightarrow> nat \<Rightarrow> nat \<Rightarrow> nat \<Rightarrow> error + real" where
  "admixture_entry n_node prob1 prob2 child_der par1_der par2_der =
     (case collect
             (map (\<lambda>n_from_1.
                     (let n_from_2 = n_node - n_from_1 in
                      case der_in_admixture_node n_from_1 n_from_2 par1_der par2_der of
                        Inl e \<Rightarrow> Inl e
                      | Inr ks \<Rightarrow>
                          Inr (comb (int n_node) (int n_from_1) * prob1 ^ n_from_1
                               * prob2 ^ n_from_2 * ks ! child_der)))
                [0 ..< n_node + 1]) of
        Inl e \<Rightarrow> Inl e
      | Inr terms \<Rightarrow> Inr (foldl (+) 0 terms))"

text \<open>
  The value of that entry in closed form: the binomial mixture, over the number of
  lineages taken from the first parent, of the entries of \<^verbatim>\<open>der_in_admixture_node\<close>.
\<close>

definition entry_value :: "nat \<Rightarrow> real \<Rightarrow> real \<Rightarrow> nat \<Rightarrow> nat \<Rightarrow> nat \<Rightarrow> real" where
  "entry_value n prob1 prob2 c d1 d2 =
     (\<Sum>n1\<le>n. real (n choose n1) * prob1 ^ n1 * prob2 ^ (n - n1)
        * (case der_in_admixture_node n1 (n - n1) d1 d2 of Inr ks \<Rightarrow> ks ! c | Inl e \<Rightarrow> 0))"

definition admixture_tensor :: "nat \<Rightarrow> real \<Rightarrow> real \<Rightarrow> error + real list list list" where
  "admixture_tensor n_node prob1 prob2 =
     collect (map (\<lambda>child_der.
       collect (map (\<lambda>par1_der.
         collect (map (\<lambda>par2_der. admixture_entry n_node prob1 prob2 child_der par1_der par2_der)
           [0 ..< n_node + 1]))
         [0 ..< n_node + 1]))
       [0 ..< n_node + 1])"

text \<open>\<^verbatim>\<open>LabeledAxisArray\<close>: an array with one population label per axis.\<close>

record LabeledAxisArray =
  array :: "real list list list"
  axes :: "node list"

text \<open>
  \<^verbatim>\<open>admixture_prob(admixture_node)\<close>: the node must have exactly two incoming edges
  (the unpacking fails otherwise) and a split probability for each parent, and the two
  probabilities must add up to \<open>1.0\<close>.
\<close>

definition admixture_prob :: "demography \<Rightarrow> node \<Rightarrow> error + LabeledAxisArray" where
  "admixture_prob g admixture_node =
     (case n_lineages_at_node g admixture_node of
        Inl e \<Rightarrow> Inl e
      | Inr n_node \<Rightarrow>
          (case remdups [ed \<leftarrow> edges g. snd ed = admixture_node] of
             [edge1, edge2] \<Rightarrow>
               (let parent1 = fst edge1; parent2 = fst edge2 in
                case splitprobs g admixture_node of
                  None \<Rightarrow> Inl KeyError
                | Some sp \<Rightarrow>
                    (case (sp parent1, sp parent2) of
                       (Some prob1, Some prob2) \<Rightarrow>
                         if prob1 + prob2 \<noteq> 1 then Inl AssertionError
                         else if n_node < 0 then
                           Inr \<lparr>array = [], axes = [admixture_node, parent1, parent2]\<rparr>
                         else
                           (case admixture_tensor (nat n_node) prob1 prob2 of
                              Inl e \<Rightarrow> Inl e
                            | Inr ret \<Rightarrow>
                                Inr \<lparr>array = ret, axes = [admixture_node, parent1, parent2]\<rparr>)
                     | _ \<Rightarrow> Inl KeyError))
           | _ \<Rightarrow> Inl ValueError))"

subsection \<open>Updating the observation state\<close>

text \<open>
  The body of the loop of \<^verbatim>\<open>update_state(state)\<close> for one node: the new values are
  written into the node's attribute dictionary first (\<^verbatim>\<open>ndn.update(state[node])\<close>) and
  checked afterwards, so on a failure the dictionary stays as written.
\<close>

definition update_node :: "node \<Rightarrow> attrs \<Rightarrow> (node \<rightharpoonup> attrs) \<Rightarrow> error option \<times> (node \<rightharpoonup> attrs)" where
  "update_node node upd nd =
     (case nd node of
        None \<Rightarrow> (Some KeyError, nd)
      | Some ndn \<Rightarrow>
          (let ndn' = ndn ++ upd;
               nd' = nd(node \<mapsto> ndn')
           in case (ndn' ''lineages'', ndn' ''derived'', ndn' ''ancestral'') of
                (Some l, Some d, Some a) \<Rightarrow>
                  if l \<noteq> d + a
                  then (Some (PyException
                          (''derived + ancestral must add to lineages at node '' @ node)), nd')
                  else (None, nd')
              | _ \<Rightarrow> (Some KeyError, nd')))"

text \<open>The check of the loop body passes for the dictionary \<open>ndn\<close> updated with \<open>upd\<close>.\<close>

definition valid_update :: "attrs \<Rightarrow> attrs \<Rightarrow> bool" where
  "valid_update ndn upd =
     (case ((ndn ++ upd) ''lineages'', (ndn ++ upd) ''derived'', (ndn ++ upd) ''ancestral'') of
        (Some l, Some d, Some a) \<Rightarrow> l = d + a
      | _ \<Rightarrow> False)"

text \<open>
  The loop itself. The state dictionary is the list of its items in iteration order; the
  first failing node ends the loop with its exception.
\<close>

fun update_nodes :: "(node \<times> attrs) list \<Rightarrow> (node \<rightharpoonup> attrs) \<Rightarrow> error option \<times> (node \<rightharpoonup> attrs)" where
  "update_nodes [] nd = (None, nd)"
| "update_nodes ((node, upd) # rest) nd =
     (case update_node node upd nd of
        (Some e, nd') \<Rightarrow> (Some e, nd')
      | (None, nd') \<Rightarrow> update_nodes rest nd')"

text \<open>
  \<^verbatim>\<open>update_state\<close>: after the loop the cache of \<^verbatim>\<open>n_derived_subtended_by\<close> is made to
  exist, which reads \<^verbatim>\<open>'derived'\<close> at every leaf when the cache is empty, and then both
  caches that depend on the node state are dropped.
\<close>

definition has_derived :: "(node \<rightharpoonup> attrs) \<Rightarrow> node \<Rightarrow> bool" where
  "has_derived nd l = (case nd l of None \<Rightarrow> False | Some a \<Rightarrow> a ''derived'' \<noteq> None)"

definition update_state :: "(node \<times> attrs) list \<Rightarrow> demography \<Rightarrow> error option \<times> demography" where
  "update_state state g =
     (case update_nodes state (node_data g) of
        (Some e, nd') \<Rightarrow> (Some e, g\<lparr>node_data := nd'\<rparr>)
      | (None, nd') \<Rightarrow>
          (let g' = g\<lparr>node_data := nd'\<rparr> in
           if \<not> n_derived_cached g' \<and> \<not> list_all (has_derived nd') (leaves g')
           then (Some KeyError, g')
           else (None, g'\<lparr>n_derived_cached := False\<rparr>)))"

section \<open>demography.py: the event tree\<close>

text \<open>
  An event is a key of \<^verbatim>\<open>eventDict\<close>: the one-tuple \<^verbatim>\<open>(l,)\<close> of a leaf, or a raw
  event of the graph's event list, a tuple of edges. Each carries the attributes
  \<^verbatim>\<open>'subpops'\<close>, \<^verbatim>\<open>'parent_pops'\<close> and \<^verbatim>\<open>'child_pops'\<close>. The source turns Python sets
  into tuples; the model keeps duplicate-free lists (the order of a set is arbitrary in
  the source and no property below depends on it).
\<close>

datatype event = LeafEvent node | RawEvent "edge list"

record event_attrs =
  subpops :: "node list"
  parent_pops :: "node list"
  child_pops :: "(node \<times> event) list"

text \<open>
  The state of the construction loop: \<^verbatim>\<open>currEvents\<close> (live population to owning
  event), \<^verbatim>\<open>eventDict\<close> and \<^verbatim>\<open>eventEdgeList\<close>, the dictionaries as association lists
  with distinct keys.
\<close>

record builder =
  currEvents :: "(node \<times> event) list"
  eventDict :: "(event \<times> event_attrs) list"
  eventEdgeList :: "(event \<times> event) list"

definition lookup :: "('k \<times> 'v) list \<Rightarrow> 'k \<Rightarrow> error + 'v" where
  "lookup al k = (case map_of al k of None \<Rightarrow> Inl KeyError | Some v \<Rightarrow> Inr v)"

text \<open>
  The body of the loop over \<^verbatim>\<open>self.graph['events']\<close>. Unpacking \<^verbatim>\<open>zip(*e)\<close> into two
  sets fails on an empty event; looking up the owner of a child population that is not live
  is a KeyError, raised before the assertion is reached.
\<close>

definition process_event :: "edge list \<Rightarrow> builder \<Rightarrow> error + builder" where
  "process_event e b =
     (if e = [] then Inl ValueError
      else
        (let parent_pops = remdups (map fst e);
             child_pops = remdups (map snd e)
         in case collect (map (lookup (currEvents b)) child_pops) of
              Inl err \<Rightarrow> Inl err
            | Inr owners \<Rightarrow>
                (let child_events = remdups owners in
                 if \<not> (length e = 2 \<and> length parent_pops + length child_pops = 3
                        \<and> (length child_events = 1 \<or> length child_events = 2))
                 then Inl AssertionError
                 else
                   (case collect (map (lookup (eventDict b)) child_events) of
                      Inl err \<Rightarrow> Inl err
                    | Inr child_attrs \<Rightarrow>
                        (let sub_pops =
                               remdups ([p \<leftarrow> concat (map subpops child_attrs). p \<notin> set child_pops]
                                        @ parent_pops);
                             ev = RawEvent e;
                             new_attrs = \<lparr>subpops = sub_pops, parent_pops = parent_pops,
                                          child_pops = zip child_pops owners\<rparr>;
                             curr1 = fold (\<lambda>p. AList.update p ev) sub_pops (currEvents b);
                             curr2 = fold AList.delete child_pops curr1
                         in Inr \<lparr>currEvents = curr2,
                                 eventDict = AList.update ev new_attrs (eventDict b),
                                 eventEdgeList =
                                   eventEdgeList b @ map (\<lambda>c. (ev, c)) child_events\<rparr>)))))"

fun process_events :: "edge list list \<Rightarrow> builder \<Rightarrow> error + builder" where
  "process_events [] b = Inr b"
| "process_events (e # es) b =
     (case process_event e b of
        Inl err \<Rightarrow> Inl err
      | Inr b' \<Rightarrow> process_events es b')"

text \<open>The dictionaries before the loop: every leaf is live and owned by its own event.\<close>

definition initial_builder :: "demography \<Rightarrow> builder" where
  "initial_builder g =
     \<lparr>currEvents = map (\<lambda>l. (l, LeafEvent l)) (leaves g),
      eventDict = map (\<lambda>l. (LeafEvent l,
                              \<lparr>subpops = [l], parent_pops = [l], child_pops = []\<rparr>)) (leaves g),
      eventEdgeList = []\<rparr>"

text \<open>
  \<^verbatim>\<open>eventTree\<close>: the directed graph on the events with their attributes and the root, the
  owner of the one population that is still live (\<^verbatim>\<open>assert len(currEvents) == 1\<close>).
\<close>

record event_tree =
  tree_edges :: "(event \<times> event) list"
  tree_nodes :: "(event \<times> event_attrs) list"
  root :: event

definition eventTree :: "demography \<Rightarrow> error + event_tree" where
  "eventTree g =
     (case process_events (events g) (initial_builder g) of
        Inl err \<Rightarrow> Inl err
      | Inr b \<Rightarrow>
          (case currEvents b of
             [(k, v)] \<Rightarrow> Inr \<lparr>tree_edges = eventEdgeList b, tree_nodes = eventDict b, root = v\<rparr>
           | _ \<Rightarrow> Inl AssertionError))"

text \<open>
  The populations still live when the loop ends, for stating what the final assertion
  tests.
\<close>

definition live_at_end :: "demography \<Rightarrow> error + (node \<times> event) list" where
  "live_at_end g =
     (case process_events (events g) (initial_builder g) of
        Inl err \<Rightarrow> Inl err
      | Inr b \<Rightarrow> Inr (currEvents b))"

text \<open>The role count the assertion in the loop tests.\<close>

definition role_count :: "edge list \<Rightarrow> nat" where
  "role_count e = length (remdups (map fst e)) + length (remdups (map snd e))"

text \<open>
  Well-formedness of the event list, as section 4.3 of the specification describes the
  events, followed along the list with the populations created so far (\<open>seen\<close>) and the
  populations that are live: an event is a pair of edges with three population roles, the
  populations it consumes are live, the populations it produces are new (neither leaves nor
  produced by an earlier event), and one live population is left at the end.
\<close>

fun well_formed :: "node list \<Rightarrow> node list \<Rightarrow> edge list list \<Rightarrow> bool" where
  "well_formed seen live [] = (length live = 1)"
| "well_formed seen live (e # es) =
     (length e = 2 \<and> role_count e = 3
      \<and> list_all (\<lambda>c. c \<in> set live) (map snd e)
      \<and> list_all (\<lambda>p. p \<notin> set seen) (map fst e)
      \<and> well_formed (seen @ map fst e)
            ([q \<leftarrow> live. q \<notin> set (map snd e)] @ remdups (map fst e)) es)"

definition well_formed_events :: "demography \<Rightarrow> bool" where
  "well_formed_events g = well_formed (leaves g) (leaves g) (events g)"

text \<open>
  The invariant of the construction loop, relative to the populations created so far:
  the keys of \<^verbatim>\<open>currEvents\<close> are distinct and have been created; the event that owns a
  live population is in \<^verbatim>\<open>eventDict\<close>, and its \<^verbatim>\<open>'subpops'\<close> are exactly the populations
  it owns; the parents of a recorded raw event have been created; an event with an incoming
  edge is recorded and owns nothing; and a recorded event owns a population or has an
  incoming edge.
\<close>

definition builder_inv :: "node list \<Rightarrow> builder \<Rightarrow> bool" where
  "builder_inv seen b \<longleftrightarrow>
     distinct (map fst (currEvents b))
     \<and> dom (map_of (currEvents b)) \<subseteq> set seen
     \<and> (\<forall>q ev. map_of (currEvents b) q = Some ev \<longrightarrow>
           (\<exists>a. map_of (eventDict b) ev = Some a \<and> distinct (subpops a)
                \<and> set (subpops a) = {q'. map_of (currEvents b) q' = Some ev}))
     \<and> (\<forall>e a. map_of (eventDict b) (RawEvent e) = Some a \<longrightarrow> set (map fst e) \<subseteq> set seen)
     \<and> (\<forall>x c. (x, c) \<in> set (eventEdgeList b) \<longrightarrow>
           map_of (eventDict b) c \<noteq> None \<and> (\<forall>q. map_of (currEvents b) q \<noteq> Some c))
     \<and> (\<forall>ev a. map_of (eventDict b) ev = Some a \<longrightarrow>
           (\<exists>q. map_of (currEvents b) q = Some ev) \<or> ev \<in> snd ` set (eventEdgeList b))"

section \<open>demography.py: normalizing constant and likelihood\<close>

text \<open>
  Modelled from the spec: the sum-product engine (module \<^verbatim>\<open>sum_product\<close> with the class
  \<^verbatim>\<open>SumProduct\<close> and \<^verbatim>\<open>LabeledAxisArray.get_zeroth_vector\<close>) is not among the sources.
  By sections 4.4 and 4.6 of the specification an engine built on a graph reads the graph,
  its event tree and the observation state of the leaves, and yields numbers. It enters as
  a parameter: \<open>bottom_term sp g event newpop\<close> stands for
  \<^verbatim>\<open>((1.0 - labeledArray.get_zeroth_vector(newpop)) * sp.truncated_sfs(newpop)).sum()\<close> of
  \<^verbatim>\<open>sp = SumProduct(g)\<close>, and \<open>p sp g\<close> for its \<^verbatim>\<open>sp.p(normalized=False)\<close>; neither changes
  the graph.
\<close>

record sum_product =
  bottom_term :: "demography \<Rightarrow> event \<Rightarrow> node \<Rightarrow> real"
  p :: "demography \<Rightarrow> real"

text \<open>
  The \<^verbatim>\<open>try\<close> block of \<^verbatim>\<open>normalizing_constant\<close>: the saved state of every leaf, or
  \<^verbatim>\<open>None\<close> as soon as one leaf lacks \<^verbatim>\<open>'ancestral'\<close> or \<^verbatim>\<open>'derived'\<close>.
\<close>

definition leaf_observation :: "demography \<Rightarrow> node \<Rightarrow> attrs option" where
  "leaf_observation g v =
     (case node_data g v of
        None \<Rightarrow> None
      | Some nd \<Rightarrow>
          (case (nd ''ancestral'', nd ''derived'') of
             (Some a, Some d) \<Rightarrow> Some [''ancestral'' \<mapsto> a, ''derived'' \<mapsto> d]
           | _ \<Rightarrow> None))"

fun gather :: "node list \<Rightarrow> (node \<Rightarrow> attrs option) \<Rightarrow> (node \<times> attrs) list option" where
  "gather [] f = Some []"
| "gather (v # vs) f =
     (case f v of
        None \<Rightarrow> None
      | Some a \<Rightarrow> (case gather vs f of None \<Rightarrow> None | Some r \<Rightarrow> Some ((v, a) # r)))"

definition prev_state_of :: "demography \<Rightarrow> (node \<times> attrs) list option" where
  "prev_state_of g = gather (leaves g) (leaf_observation g)"

text \<open>The two boundary states: all alleles ancestral, all alleles derived.\<close>

definition all_ancestral :: "demography \<Rightarrow> error + (node \<times> attrs) list" where
  "all_ancestral g =
     collect (map (\<lambda>v. case lineages_of g v of
                          Inl e \<Rightarrow> Inl e
                        | Inr l \<Rightarrow> Inr (v, [''derived'' \<mapsto> 0, ''ancestral'' \<mapsto> l]))
                (leaves g))"

definition all_derived :: "demography \<Rightarrow> error + (node \<times> attrs) list" where
  "all_derived g =
     collect (map (\<lambda>v. case lineages_of g v of
                          Inl e \<Rightarrow> Inl e
                        | Inr l \<Rightarrow> Inr (v, [''derived'' \<mapsto> l, ''ancestral'' \<mapsto> 0]))
                (leaves g))"

text \<open>
  The double loop over the events of the tree and the parent populations of each event,
  adding one term of the engine at every step.
\<close>

definition branch_sum :: "sum_product \<Rightarrow> demography \<Rightarrow> event_tree \<Rightarrow> real" where
  "branch_sum sp g tree =
     foldl (+) 0
       (concat (map (\<lambda>(ev, a). map (bottom_term sp g ev) (parent_pops a)) (tree_nodes tree)))"

text \<open>
  \<^verbatim>\<open>normalizing_constant(demography)\<close>, without its final assertion: the value of
  \<open>ret\<close> and the graph as the calls of \<^verbatim>\<open>update_state\<close> leave it. The state on entry is
  written back only if the \<^verbatim>\<open>try\<close> block found one at every leaf.
\<close>

definition normalizing_constant_body :: "sum_product \<Rightarrow> demography \<Rightarrow> (error + real) \<times> demography" where
  "normalizing_constant_body sp g =
     (let prev_state = prev_state_of g in
      case all_ancestral g of
        Inl e \<Rightarrow> (Inl e, g)
      | Inr state0 \<Rightarrow>
          (case update_state state0 g of
             (Some e, g1) \<Rightarrow> (Inl e, g1)
           | (None, g1) \<Rightarrow>
               (case eventTree g1 of
                  Inl e \<Rightarrow> (Inl e, g1)
                | Inr tree \<Rightarrow>
                    (let ret0 = branch_sum sp g1 tree in
                     case all_derived g1 of
                       Inl e \<Rightarrow> (Inl e, g1)
                     | Inr state1 \<Rightarrow>
                         (case update_state state1 g1 of
                            (Some e, g2) \<Rightarrow> (Inl e, g2)
                          | (None, g2) \<Rightarrow>
                              (let ret = ret0 - p sp g2 in
                               case prev_state of
                                 None \<Rightarrow> (Inr ret, g2)
                               | Some ps \<Rightarrow>
                                   (case update_state ps g2 of
                                      (Some e, g3) \<Rightarrow> (Inl e, g3)
                                    | (None, g3) \<Rightarrow> (Inr ret, g3))))))))"

text \<open>\<^verbatim>\<open>normalizing_constant\<close>: the body, then \<^verbatim>\<open>assert ret > 0.0\<close>, then the return.\<close>

definition normalizing_constant :: "sum_product \<Rightarrow> demography \<Rightarrow> (error + real) \<times> demography" where
  "normalizing_constant sp g =
     (case normalizing_constant_body sp g of
        (Inl e, g') \<Rightarrow> (Inl e, g')
      | (Inr ret, g') \<Rightarrow> if ret > 0 then (Inr ret, g') else (Inl AssertionError, g'))"

text \<open>
  The cached property \<^verbatim>\<open>totalSfsSum\<close>: the normalizing constant, computed on first use.
\<close>

definition totalSfsSum :: "sum_product \<Rightarrow> demography \<Rightarrow> (error + real) \<times> demography" where
  "totalSfsSum sp g =
     (case totalSfsSum_cache g of
        Some z \<Rightarrow> (Inr z, g)
      | None \<Rightarrow>
          (case normalizing_constant sp g of
             (Inl e, g') \<Rightarrow> (Inl e, g')
           | (Inr z, g') \<Rightarrow> (Inr z, g'\<lparr>totalSfsSum_cache := Some z\<rparr>)))"

text \<open>
  The state \<^verbatim>\<open>st\<close> that \<^verbatim>\<open>log_likelihood_prf\<close> builds for one configuration:
  \<^verbatim>\<open>zip(leaves, states)\<close> pairs the sorted leaves with the derived counts.
\<close>

definition config_state :: "demography \<Rightarrow> node list \<Rightarrow> int list \<Rightarrow> error + (node \<times> attrs) list" where
  "config_state g lvs states =
     collect (map (\<lambda>(a, b). case n_lineages_at_node g a of
                               Inl e \<Rightarrow> Inl e
                             | Inr n \<Rightarrow> Inr (a, [''derived'' \<mapsto> b, ''ancestral'' \<mapsto> n - b]))
                (zip lvs states))"

text \<open>
  The loop of \<^verbatim>\<open>log_likelihood_prf\<close> over the sorted items of the observed spectrum.
  A weight is a count, so \<^verbatim>\<open>gammaln(weight + 1)\<close> is \<open>ln (weight!)\<close>. The logarithm of a
  number that is not positive is \<open>-inf\<close> or NaN in numpy and leaves the real-number model.
\<close>

fun prf_loop ::
  "sum_product \<Rightarrow> real \<Rightarrow> node list \<Rightarrow> (int list \<times> nat) list \<Rightarrow> demography \<Rightarrow> real
     \<Rightarrow> (error + real) \<times> demography" where
  "prf_loop sp theta lvs [] g ret = (Inr ret, g)"
| "prf_loop sp theta lvs ((states, weight) # rest) g ret =
     (case config_state g lvs states of
        Inl e \<Rightarrow> (Inl e, g)
      | Inr st \<Rightarrow>
          (case update_state st g of
             (Some e, g') \<Rightarrow> (Inl e, g')
           | (None, g') \<Rightarrow>
               (let x = p sp g' * theta / 2 in
                if x \<le> 0 then (Inl NotFinite, g')
                else prf_loop sp theta lvs rest g'
                       (ret + ln x * real weight - ln (real (fact weight))))))"

text \<open>
  \<^verbatim>\<open>log_likelihood_prf(theta, sfs)\<close>; the observed spectrum is the list of the items of
  the dictionary \<^verbatim>\<open>sfs\<close>, which the source sorts before the loop.
\<close>

definition log_likelihood_prf ::
  "sum_product \<Rightarrow> real \<Rightarrow> (int list \<times> nat) list \<Rightarrow> demography \<Rightarrow> (error + real) \<times> demography" where
  "log_likelihood_prf sp theta sfs_items g =
     (case totalSfsSum sp g of
        (Inl e, g0) \<Rightarrow> (Inl e, g0)
      | (Inr z, g0) \<Rightarrow>
          (case prf_loop sp theta (sort (leaves g0)) (sort sfs_items) g0 (- z * theta / 2) of
             (Inl e, g') \<Rightarrow> (Inl e, g')
           | (Inr ret, g') \<Rightarrow> if ret < 0 then (Inr ret, g') else (Inl AssertionError, g')))"

text \<open>
  The invariant of the data model on the leaves: every leaf carries \<^verbatim>\<open>'lineages'\<close>
  (the constructor of \<^verbatim>\<open>Demography\<close> checks it), and where a leaf has both \<^verbatim>\<open>'derived'\<close>
  and \<^verbatim>\<open>'ancestral'\<close> set they add up to its lineages.
\<close>

definition well_observed :: "demography \<Rightarrow> bool" where
  "well_observed g =
     list_all
       (\<lambda>v. case node_data g v of
               None \<Rightarrow> False
             | Some nd \<Rightarrow>
                 (case nd ''lineages'' of
                    None \<Rightarrow> False
                  | Some l \<Rightarrow>
                      (case (nd ''derived'', nd ''ancestral'') of
                         (Some d, Some a) \<Rightarrow> l = d + a
                       | _ \<Rightarrow> True)))
       (leaves g)"

section \<open>Auxiliary notions for the properties\<close>

text \<open>
  The graph \<open>g\<close> with the observation state \<open>st\<close> written at its nodes, which is what a
  successful \<^verbatim>\<open>update_state(st)\<close> leaves; and the graph with the leaves set to a
  configuration of derived counts.
\<close>

definition observe :: "demography \<Rightarrow> (node \<times> attrs) list \<Rightarrow> demography" where
  "observe g st =
     g\<lparr>node_data :=
         (\<lambda>v. case map_of st v of
                None \<Rightarrow> node_data g v
              | Some u \<Rightarrow> map_option (\<lambda>nd. nd ++ u) (node_data g v)),
       n_derived_cached := False\<rparr>"

definition with_config :: "demography \<Rightarrow> node list \<Rightarrow> int list \<Rightarrow> demography" where
  "with_config g lvs states =
     (case config_state g lvs states of Inr st \<Rightarrow> observe g st | Inl e \<Rightarrow> g)"

text \<open>
  Two graphs that differ at most in the observation state of their leaves (and in the
  cache flag that depends on it).
\<close>

definition same_but_observation :: "demography \<Rightarrow> demography \<Rightarrow> bool" where
  "same_but_observation g h \<longleftrightarrow>
     nodes g = nodes h \<and> edges g = edges h \<and> splitprobs g = splitprobs h
     \<and> events g = events h \<and> totalSfsSum_cache g = totalSfsSum_cache h
     \<and> (\<forall>v. v \<notin> set (leaves h) \<longrightarrow> node_data g v = node_data h v)
     \<and> (\<forall>v. rel_option (\<lambda>a b. \<forall>k. k \<noteq> ''derived'' \<longrightarrow> k \<noteq> ''ancestral'' \<longrightarrow> a k = b k)
              (node_data g v) (node_data h v))"

section \<open>Concrete inputs\<close>

text \<open>
  A stand-in for numpy's linear algebra that answers with the identity eigenvectors and
  zero eigenvalues, which is the eigensystem of the zero matrix: \<open>rate_matrix n\<close> is
  the zero matrix for \<open>n \<le> 1\<close>.
\<close>

definition unit_linalg :: linalg where
  "unit_linalg =
     \<lparr>eig = (\<lambda>m M. (\<lambda>k. 0, \<lambda>r c. if r = c then 1 else 0)), inv = (\<lambda>m A. Inr A)\<rparr>"

text \<open>The vector \<open>[1, 0]\<close>: one lineage, certainly ancestral.\<close>

definition example_vector :: ndarray where
  "example_vector = \<lparr>shape = [2], item = (\<lambda>idx. if idx = [0] then 1 else 0)\<rparr>"

definition example_history :: ConstantTruncatedSizeHistory where
  "example_history = \<lparr>n_max = 3, tau = Fin 1, N = 1\<rparr>"

definition still_history :: ConstantTruncatedSizeHistory where
  "still_history = \<lparr>n_max = 3, tau = Fin 0, N = 1\<rparr>"

text \<open>
  One admixed population \<open>c\<close> with one lineage, drawing from \<open>p1\<close> and \<open>p2\<close> with
  probability one half each; \<open>p1\<close> and \<open>p2\<close> split from the root \<open>r\<close>.
\<close>

definition admix_graph :: demography where
  "admix_graph =
     \<lparr>nodes = [''c'', ''p1'', ''p2'', ''r''],
      edges = [(''p1'', ''c''), (''p2'', ''c''), (''r'', ''p1''), (''r'', ''p2'')],
      node_data = [''c'' \<mapsto> [''lineages'' \<mapsto> 1], ''p1'' \<mapsto> Map.empty, ''p2'' \<mapsto> Map.empty,
                   ''r'' \<mapsto> Map.empty],
      splitprobs = [''c'' \<mapsto> [''p1'' \<mapsto> 1 / 2, ''p2'' \<mapsto> 1 / 2]],
      events = [[(''p1'', ''c''), (''p2'', ''c'')], [(''r'', ''p1''), (''r'', ''p2'')]],
      n_derived_cached = False,
      totalSfsSum_cache = None\<rparr>"

text \<open>
  Two sampled populations \<open>a\<close> and \<open>b\<close> of two lineages each under a root \<open>r\<close>, with
  no observation state yet; and the same graph where only \<open>a\<close> has been observed.
\<close>

definition two_leaf_graph :: demography where
  "two_leaf_graph =
     \<lparr>nodes = [''a'', ''b'', ''r''],
      edges = [(''r'', ''a''), (''r'', ''b'')],
      node_data = [''a'' \<mapsto> [''lineages'' \<mapsto> 2], ''b'' \<mapsto> [''lineages'' \<mapsto> 2],
                   ''r'' \<mapsto> Map.empty],
      splitprobs = Map.empty,
      events = [[(''r'', ''a''), (''r'', ''b'')]],
      n_derived_cached = False,
      totalSfsSum_cache = None\<rparr>"

definition half_observed_graph :: demography where
  "half_observed_graph =
     two_leaf_graph\<lparr>node_data :=
       [''a'' \<mapsto> [''lineages'' \<mapsto> 2, ''derived'' \<mapsto> 1, ''ancestral'' \<mapsto> 1],
        ''b'' \<mapsto> [''lineages'' \<mapsto> 2], ''r'' \<mapsto> Map.empty]\<rparr>"

text \<open>An update that is valid at \<open>a\<close> and invalid at \<open>b\<close> (\<open>2 + 2 \<noteq> 2\<close>).\<close>

definition bad_state :: "(node \<times> attrs) list" where
  "bad_state =
     [(''a'', [''derived'' \<mapsto> 1, ''ancestral'' \<mapsto> 1]),
      (''b'', [''derived'' \<mapsto> 2, ''ancestral'' \<mapsto> 2])]"

text \<open>
  A stand-in for the sum-product engine: every branch term is \<open>1\<close> and the all-derived
  probability is \<open>0\<close>; and one whose configuration probability is one half.
\<close>

definition unit_engine :: sum_product where
  "unit_engine = \<lparr>bottom_term = (\<lambda>g ev v. 1), p = (\<lambda>g. 0)\<rparr>"

definition half_engine :: sum_product where
  "half_engine = \<lparr>bottom_term = (\<lambda>g ev v. 1), p = (\<lambda>g. 1 / 2)\<rparr>"

text \<open>The event tree of the two-leaf graph, and that graph with both leaves observed.\<close>

definition two_leaf_tree :: event_tree where
  "two_leaf_tree =
     \<lparr>tree_edges = [(RawEvent [(''r'', ''a''), (''r'', ''b'')], LeafEvent ''a''),
                    (RawEvent [(''r'', ''a''), (''r'', ''b'')], LeafEvent ''b'')],
      tree_nodes = [(LeafEvent ''a'', \<lparr>subpops = [''a''], parent_pops = [''a''], child_pops = []\<rparr>),
                    (LeafEvent ''b'', \<lparr>subpops = [''b''], parent_pops = [''b''], child_pops = []\<rparr>),
                    (RawEvent [(''r'', ''a''), (''r'', ''b'')],
                     \<lparr>subpops = [''r''], parent_pops = [''r''],
                      child_pops = [(''a'', LeafEvent ''a''), (''b'', LeafEvent ''b'')]\<rparr>)],
      root = RawEvent [(''r'', ''a''), (''r'', ''b'')]\<rparr>"

definition observed_graph :: demography where
  "observed_graph =
     two_leaf_graph\<lparr>node_data :=
       [''a'' \<mapsto> [''lineages'' \<mapsto> 2, ''derived'' \<mapsto> 1, ''ancestral'' \<mapsto> 1],
        ''b'' \<mapsto> [''lineages'' \<mapsto> 2, ''derived'' \<mapsto> 0, ''ancestral'' \<mapsto> 2],
        ''r'' \<mapsto> Map.empty]\<rparr>"

text \<open>
  The two-leaf graph with a second event that consumes \<open>a\<close> and \<open>b\<close> once more, into two
  further populations: four population roles, and children that are no longer live.
\<close>

definition twice_consumed_graph :: demography where
  "twice_consumed_graph =
     \<lparr>nodes = [''a'', ''b'', ''r'', ''s'', ''t''],
      edges = [(''r'', ''a''), (''r'', ''b''), (''s'', ''a''), (''t'', ''b'')],
      node_data = [''a'' \<mapsto> [''lineages'' \<mapsto> 2], ''b'' \<mapsto> [''lineages'' \<mapsto> 2],
                   ''r'' \<mapsto> Map.empty, ''s'' \<mapsto> Map.empty, ''t'' \<mapsto> Map.empty],
      splitprobs = Map.empty,
      events = [[(''r'', ''a''), (''r'', ''b'')], [(''s'', ''a''), (''t'', ''b'')]],
      n_derived_cached = False,
      totalSfsSum_cache = None\<rparr>"

section \<open>Properties of the size histories\<close>

lemma W_defined: "2 \<le> j \<Longrightarrow> \<exists>w. W n b j = Inr w"
proof (induction j rule: less_induct)
  case (less j)
  show ?case
  proof (cases "j \<le> 3")
    case True
    with less.prems have "j = 2 \<or> j = 3" by arith
    then show ?thesis by (auto simp: W.simps [of n b j])
  next
    case False
    then have a: "2 \<le> j - 2" "j - 2 < j" "2 \<le> j - 1" "j - 1 < j" by arith+
    obtain w0 where w0: "W n b (j - 2) = Inr w0" using less.IH [OF a(2) a(1)] by blast
    obtain w1 where w1: "W n b (j - 1) = Inr w1" using less.IH [OF a(4) a(3)] by blast
    from False show ?thesis
      using w0 w1 by (subst W.simps) (simp add: Let_def)
  qed
qed

lemma collect_all_Inr:
  "(\<And>x. x \<in> set xs \<Longrightarrow> \<exists>v. f x = Inr v) \<Longrightarrow> \<exists>vs. collect (map f xs) = Inr vs"
proof (induction xs)
  case Nil
  then show ?case by simp
next
  case (Cons a xs)
  then obtain v where v: "f a = Inr v" by auto
  from Cons obtain vs where "collect (map f xs) = Inr vs" by auto
  with v show ?case by simp
qed

lemma ww_matrix_defined: "\<exists>ww. ww_matrix n = Inr ww"
proof -
  have "\<exists>v. collect (map (\<lambda>j. W n j i) [1 ..< n]) = Inr v" if "i \<in> set [2 ..< n + 1]" for i
  proof (rule collect_all_Inr)
    fix x
    from that have "2 \<le> i" by auto
    then show "\<exists>v. W n x i = Inr v" by (rule W_defined)
  qed
  then show ?thesis
    unfolding ww_matrix_def by (rule collect_all_Inr)
qed

lemma sfs_of_conservation:
  assumes "1 \<le> n"
  shows "\<exists>d f. sfs_of n (Fin t) et = Inr d \<and> (\<forall>j\<in>{1..n}. d (j, n) = Some (Fin (f j)))
           \<and> (\<Sum>j = 1..<n. f j * real j / real n) + f n = t"
proof (cases "n = 1")
  case True
  then show ?thesis
    by (intro exI [of _ "[(1, 1) \<mapsto> Fin t]"] exI [of _ "\<lambda>_. t"]) (simp add: sfs_of_def)
next
  case False
  with assms have n: "n \<noteq> 0" "n \<noteq> 1" by auto
  obtain ww where ww: "ww_matrix n = Inr ww" using ww_matrix_defined by blast
  let ?bv = "bv_vector n et ww"
  define ret where "ret = (\<lambda>k. if snd k = n \<and> 1 \<le> fst k \<and> fst k < n
                                then Some (?bv ! (fst k - 1)) else None)"
  define S where "S = sum_list (map (\<lambda>b. (case ret (b, n) of Some v \<Rightarrow> v | None \<Rightarrow> 0)
                                      * real b / real n) [1 ..< n])"
  define f where "f = (\<lambda>j. if j < n then ?bv ! (j - 1) else t - S)"
  define d where "d = (\<lambda>k. map_option Fin (ret k))((n, n) \<mapsto> Fin (t - S))"
  have "sfs_of n (Fin t) et = Inr d"
    using n
    by (simp add: sfs_of_def ww Let_def before_tmrca_def xminus_def d_def ret_def S_def)
  moreover have "\<forall>j\<in>{1..n}. d (j, n) = Some (Fin (f j))"
    by (auto simp: d_def f_def ret_def)
  moreover have "(\<Sum>j = 1..<n. f j * real j / real n) = S"
    unfolding S_def interv_sum_list_conv_sum_set_nat
    by (rule sum.cong) (auto simp: f_def ret_def)
  then have "(\<Sum>j = 1..<n. f j * real j / real n) + f n = t"
    by (simp add: f_def)
  ultimately show ?thesis by blast
qed

text \<open>
  Claim C4. For a constant-size history with finite \<open>tau\<close> and \<open>n_max = n \<ge> 1\<close>,
  \<^verbatim>\<open>sfs\<close> returns a dictionary whose entries \<open>(j, n)\<close>, \<open>j = 1..n\<close>, are finite and
  satisfy branch-length conservation: the sum over \<open>j = 1..n-1\<close> of
  \<open>sfs[(j, n)] * j / n\<close>, plus the monomorphic entry \<open>sfs[(n, n)]\<close>, is \<open>tau\<close>
  (over the reals, that is, up to the rounding of the floating-point original).
\<close>

theorem sfs_branch_length_conservation:
  assumes "ConstantTruncatedSizeHistory_init n (Fin t) Nv = Inr h" and "1 \<le> n"
  shows "\<exists>d f. sfs h = Inr d \<and> (\<forall>j\<in>{1..n}. d (j, n) = Some (Fin (f j)))
           \<and> (\<Sum>j = 1..<n. f j * real j / real n) + f n = t"
proof -
  from assms(1) have "n_max h = n" "tau h = Fin t"
    by (auto simp: ConstantTruncatedSizeHistory_init_def split: if_splits)
  then show ?thesis
    unfolding sfs_def using sfs_of_conservation [OF assms(2)] by simp
qed

theorem sfs_branch_length_conservation_witness:
  "ConstantTruncatedSizeHistory_init 3 (Fin 1) 1 = Inr example_history \<and> (1::nat) \<le> 3 \<and>
   (\<exists>d f. sfs example_history = Inr d \<and> (\<forall>j\<in>{1..3}. d (j, 3) = Some (Fin (f j)))
      \<and> (\<Sum>j = 1..<3. f j * real j / real 3) + f 3 = 1)"
proof -
  have h: "ConstantTruncatedSizeHistory_init 3 (Fin 1) 1 = Inr example_history"
    by (simp add: ConstantTruncatedSizeHistory_init_def example_history_def)
  have n: "(1::nat) \<le> 3" by simp
  from sfs_branch_length_conservation [OF h n] h show ?thesis by simp
qed

text \<open>
  Claim C5. Constructing a constant history with \<open>N \<le> 0\<close> raises; for a constructed
  history and every \<open>j\<close> in \<open>2..n_max\<close> the entry of \<^verbatim>\<open>etjj\<close> for \<open>j\<close> (at position
  \<open>j - 2\<close>) is \<open>(1 - exp (- C(j,2) * tau / N)) * N / C(j,2)\<close> when \<open>tau\<close> is finite
  and \<open>N / C(j,2)\<close> when \<open>tau\<close> is infinite.
\<close>

theorem constant_history_etjj:
  "(Nv \<le> 0 \<longrightarrow> ConstantTruncatedSizeHistory_init n t Nv = Inl (PyException ''N must be positive''))
   \<and> (ConstantTruncatedSizeHistory_init n t Nv = Inr h \<longrightarrow> 2 \<le> j \<longrightarrow> j \<le> n \<longrightarrow>
        length (etjj h) = n - 1 \<and>
        etjj h ! (j - 2) =
          (case t of
             Fin tv \<Rightarrow> (1 - exp (- real (j choose 2) * tv / Nv)) * Nv / real (j choose 2)
           | PInf \<Rightarrow> Nv / real (j choose 2)))"
proof (intro conjI impI)
  assume "Nv \<le> 0"
  then show "ConstantTruncatedSizeHistory_init n t Nv = Inl (PyException ''N must be positive'')"
    by (simp add: ConstantTruncatedSizeHistory_init_def)
next
  assume h: "ConstantTruncatedSizeHistory_init n t Nv = Inr h" and j: "2 \<le> j" "j \<le> n"
  from h have f: "n_max h = n" "tau h = t" "N h = Nv" and pos: "0 < Nv"
    by (auto simp: ConstantTruncatedSizeHistory_init_def split: if_splits)
  show "length (etjj h) = n - 1" using j by (simp add: etjj_def f)
  from j have "j - 2 < length [2 ..< n + 1]" by simp
  then have "etjj h ! (j - 2) = etjj_entry t Nv ([2 ..< n + 1] ! (j - 2))"
    unfolding etjj_def f by (rule nth_map)
  also have "[2 ..< n + 1] ! (j - 2) = j"
    using j nth_upt [of 2 "j - 2" "n + 1"] by (simp del: upt_Suc)
  finally have e: "etjj h ! (j - 2) = etjj_entry t Nv j" .
  show "etjj h ! (j - 2) =
          (case t of
             Fin tv \<Rightarrow> (1 - exp (- real (j choose 2) * tv / Nv)) * Nv / real (j choose 2)
           | PInf \<Rightarrow> Nv / real (j choose 2))"
    unfolding e etjj_entry_def Let_def using pos
    by (cases t) (simp_all add: field_simps)
qed

theorem constant_history_etjj_witness:
  "((-1::real) \<le> 0 \<and>
      ConstantTruncatedSizeHistory_init 3 (Fin 1) (-1) = Inl (PyException ''N must be positive''))
   \<and> (ConstantTruncatedSizeHistory_init 3 (Fin 1) 1 = Inr example_history \<and> (2::nat) \<le> 3 \<and>
        length (etjj example_history) = 2 \<and>
        etjj example_history ! 1 = (1 - exp (- 3)) / 3)"
proof -
  have h: "ConstantTruncatedSizeHistory_init 3 (Fin 1) 1 = Inr example_history"
    by (simp add: ConstantTruncatedSizeHistory_init_def example_history_def)
  have c: "(3::nat) choose 2 = 3" by (simp add: eval_nat_numeral)
  from constant_history_etjj [of "-1" 3 "Fin 1"]
    constant_history_etjj [of 1 3 "Fin 1" example_history 3] h c
  show ?thesis by simp
qed

text \<open>
  Claim C7. Whenever a history's scaled time is \<open>0\<close>, \<^verbatim>\<open>transition_prob\<close> returns its
  input array itself, for every array and axis, and whatever the Moran operator would have
  done (also where it would have failed): the operator is not consulted.
\<close>

theorem transition_prob_zero:
  "scaled_time h = Inr (Fin 0) \<Longrightarrow> transition_prob la h v axis = Inr v"
  by (simp add: transition_prob_def)

lemma tau_zero_scaled_time:
  "ConstantTruncatedSizeHistory_init n (Fin 0) Nv = Inr h \<Longrightarrow> scaled_time h = Inr (Fin 0)"
  by (auto simp: ConstantTruncatedSizeHistory_init_def scaled_time_def split: if_splits)

theorem transition_prob_zero_witness:
  "scaled_time still_history = Inr (Fin 0) \<and>
   transition_prob unit_linalg still_history example_vector 0 = Inr example_vector \<and>
   transition_prob unit_linalg still_history example_vector 5 = Inr example_vector \<and>
   moran_action unit_linalg 0 example_vector 5 = Inl IndexError"
proof -
  have s: "scaled_time still_history = Inr (Fin 0)"
    by (simp add: scaled_time_def still_history_def)
  have "moran_action unit_linalg 0 example_vector 5 = Inl IndexError"
    by (simp add: moran_action_def example_vector_def)
  with s transition_prob_zero [OF s] show ?thesis by simp
qed

section \<open>Properties of the Moran action\<close>

lemma pos_nth: "distinct xs \<Longrightarrow> i < length xs \<Longrightarrow> pos (xs ! i) xs = i"
proof (induction xs arbitrary: i)
  case Nil
  then show ?case by simp
next
  case (Cons a xs)
  then show ?case by (cases i) auto
qed
lemma move_last_length: "axis < vlen \<Longrightarrow> length (move_last axis vlen) = vlen"
  by (simp add: move_last_def)

lemma move_last_set: "axis < vlen \<Longrightarrow> set (move_last axis vlen) = {..<vlen}"
  by (auto simp: move_last_def)

lemma move_last_distinct: "axis < vlen \<Longrightarrow> distinct (move_last axis vlen)"
  by (auto simp: move_last_def)

lemma move_last_nth:
  assumes "axis < vlen" "i < vlen"
  shows "move_last axis vlen ! i = (if i < axis then i else if i = axis then vlen - 1 else i - 1)"
  using assms by (auto simp: move_last_def nth_append)

lemma move_last_pos:
  assumes "axis < vlen" "k < vlen"
  shows "pos k (move_last axis vlen) = (if k < axis then k else if k = vlen - 1 then axis else k + 1)"
proof -
  define i where "i = (if k < axis then k else if k = vlen - 1 then axis else k + 1)"
  have i: "i < vlen" using assms by (auto simp: i_def)
  have "move_last axis vlen ! i = k"
    using assms i by (auto simp: move_last_nth i_def)
  moreover have "pos (move_last axis vlen ! i) (move_last axis vlen) = i"
    using i assms by (intro pos_nth move_last_distinct) (simp_all add: move_last_length)
  ultimately show ?thesis by (simp add: i_def)
qed

lemma move_last_shape:
  assumes "axis < length sv"
  shows "map (\<lambda>i. (remove_at axis sv @ [sv ! axis]) ! i) (move_last axis (length sv)) = sv"
proof (rule nth_equalityI)
  show "length (map (\<lambda>i. (remove_at axis sv @ [sv ! axis]) ! i) (move_last axis (length sv)))
          = length sv"
    using assms by (simp add: move_last_length)
next
  fix i
  assume "i < length (map (\<lambda>i. (remove_at axis sv @ [sv ! axis]) ! i) (move_last axis (length sv)))"
  then have i: "i < length sv" using assms by (simp add: move_last_length)
  have len: "length (remove_at axis sv) = length sv - 1"
    using assms by (simp add: remove_at_def)
  show "map (\<lambda>i. (remove_at axis sv @ [sv ! axis]) ! i) (move_last axis (length sv)) ! i = sv ! i"
    using assms i len
    by (auto simp: move_last_length move_last_nth nth_append remove_at_def min_def)
qed

lemma move_last_index:
  assumes "axis < length idx"
  shows "map (\<lambda>k. idx ! pos k (move_last axis (length idx))) [0 ..< length idx]
           = remove_at axis idx @ [idx ! axis]"
proof (rule nth_equalityI)
  show "length (map (\<lambda>k. idx ! pos k (move_last axis (length idx))) [0 ..< length idx])
          = length (remove_at axis idx @ [idx ! axis])"
    using assms by (simp add: remove_at_def)
next
  fix k
  assume "k < length (map (\<lambda>k. idx ! pos k (move_last axis (length idx))) [0 ..< length idx])"
  then have k: "k < length idx" by simp
  show "map (\<lambda>k. idx ! pos k (move_last axis (length idx))) [0 ..< length idx] ! k
          = (remove_at axis idx @ [idx ! axis]) ! k"
    using assms k
    by (auto simp: move_last_pos nth_append remove_at_def min_def)
qed

lemma insert_remove: "axis < length idx \<Longrightarrow> insert_at axis j (remove_at axis idx) = idx[axis := j]"
  by (simp add: insert_at_def remove_at_def upd_conv_take_nth_drop min_def)

lemma moran_action_applies:
  assumes ax: "axis < length (shape v)" and pos: "0 < shape v ! axis"
    and es: "moran_eigensystem la (shape v ! axis - 1) = Inr (P, d, Pinv)"
  shows "\<exists>r. moran_action la t v axis = Inr r \<and> shape r = shape v \<and>
           (\<forall>idx. length idx = length (shape v) \<longrightarrow>
              item r idx =
                (\<Sum>j<shape v ! axis.
                   item v (idx[axis := j]) *
                   dot (shape v ! axis) P
                     (dot (shape v ! axis) (diag (\<lambda>k. exp (t * d k))) Pinv) (idx ! axis) j))"
proof -
  define m where "m = shape v ! axis"
  define M where "M = dot m P (dot m (diag (\<lambda>k. exp (t * d k))) Pinv)"
  define ret where "ret = \<lparr>shape = remove_at axis (shape v) @ [m],
       item = (\<lambda>idx. \<Sum>j<m. item v (insert_at axis j (butlast idx)) * M (last idx) j)\<rparr>"
  define axes where "axes = move_last axis (length (shape v))"
  define r where "r = \<lparr>shape = map (\<lambda>i. shape ret ! i) axes,
       item = (\<lambda>idx. item ret (map (\<lambda>k. idx ! pos k axes) [0 ..< length axes]))\<rparr>"
  have m1: "m - 1 + 1 = m" using pos by (simp add: m_def)
  have td: "tensordot v m M axis = Inr ret"
    by (simp add: tensordot_def ret_def m_def)
  have lr: "length (shape ret) = length (shape v)"
    using ax by (simp add: ret_def remove_at_def)
  have tr: "transpose_nd ret axes = Inr r"
    using ax by (simp add: transpose_nd_def axes_def move_last_length move_last_set lr r_def)
  have sh: "shape r = shape v"
    using move_last_shape [OF ax] by (simp add: r_def ret_def axes_def m_def)
  have ax_eq: "move_last axis (length (shape v)) = axes"
    by (simp add: axes_def)
  have "moran_action la t v axis = Inr r"
    using ax pos es td tr sh
    by (simp add: moran_action_def Let_def m_def [symmetric] m1 M_def [symmetric] ax_eq)
  moreover have "item r idx = (\<Sum>j<m. item v (idx[axis := j]) * M (idx ! axis) j)"
    if "length idx = length (shape v)" for idx
  proof -
    have a: "axis < length idx" using ax that by simp
    have "map (\<lambda>k. idx ! pos k axes) [0 ..< length axes] = remove_at axis idx @ [idx ! axis]"
      using move_last_index [OF a] ax that by (simp add: axes_def move_last_length)
    then show ?thesis
      using a by (simp add: r_def ret_def insert_remove)
  qed
  ultimately show ?thesis using sh by (auto simp: m_def M_def)
qed

lemma unit_eigensystem:
  "moran_eigensystem unit_linalg n =
     Inr (\<lambda>r c. if r = c then 1 else 0, \<lambda>k. 0, \<lambda>r c. if r = c then 1 else 0)"
  by (simp add: moran_eigensystem_def unit_linalg_def Let_def)

text \<open>
  Claim C9, as the code has it. \<^verbatim>\<open>moran_action\<close> takes no lineage count: it reads
  \<open>n\<close> off the acted-on axis (\<open>n = v.shape[axis] - 1\<close>), so the operator always fits
  and nothing is compared with the lineage count of the caller. For an axis of the array
  with at least one entry, and an eigensystem \<open>(P, d, P\<^sup>-\<^sup>1)\<close> for that \<open>n\<close>, it returns an
  array of the shape of \<open>v\<close> whose entry at \<open>idx\<close> is the row \<open>idx ! axis\<close> of
  \<open>P \<cdot> diag (exp (t \<cdot> d)) \<cdot> P\<^sup>-\<^sup>1\<close> applied to the entries of \<open>v\<close> along that axis,
  all other coordinates of \<open>idx\<close> fixed.
\<close>

theorem moran_action_shape:
  assumes ax: "axis < length (shape v)" and pos: "0 < shape v ! axis"
    and es: "moran_eigensystem la (shape v ! axis - 1) = Inr (P, d, Pinv)"
  shows "\<exists>r. moran_action la t v axis = Inr r \<and> shape r = shape v \<and>
           (\<forall>idx. length idx = length (shape v) \<longrightarrow>
              item r idx =
                (\<Sum>j<shape v ! axis.
                   item v (idx[axis := j]) *
                   dot (shape v ! axis) P
                     (dot (shape v ! axis) (diag (\<lambda>k. exp (t * d k))) Pinv) (idx ! axis) j))"
  using assms by (rule moran_action_applies)

theorem moran_action_shape_witness:
  "0 < length (shape example_vector) \<and> 0 < shape example_vector ! 0 \<and>
   (\<exists>r. moran_action unit_linalg 1 example_vector 0 = Inr r \<and> shape r = shape example_vector)"
proof -
  have a: "0 < length (shape example_vector)" and b: "0 < shape example_vector ! 0"
    by (simp_all add: example_vector_def)
  from moran_action_shape [OF a b unit_eigensystem, of 1] a b show ?thesis by blast
qed

text \<open>
  Claim C9 as stated fails: a history for 3 lineages acts on a vector of 2 entries
  (1 lineage) and neither \<^verbatim>\<open>moran_action\<close> nor \<^verbatim>\<open>transition_prob\<close> fails.
\<close>

theorem moran_action_no_mismatch_check:
  "n_max example_history + 1 \<noteq> shape example_vector ! 0 \<and>
   \<not> isl (moran_action unit_linalg 1 example_vector 0) \<and>
   \<not> isl (transition_prob unit_linalg example_history example_vector 0)"
proof -
  have a: "0 < length (shape example_vector)" and b: "0 < shape example_vector ! 0"
    by (simp_all add: example_vector_def)
  from moran_action_applies [OF a b unit_eigensystem, of 1]
  obtain r where r: "moran_action unit_linalg 1 example_vector 0 = Inr r" by blast
  have "scaled_time example_history = Inr (Fin 1)"
    by (simp add: scaled_time_def example_history_def)
  then have "transition_prob unit_linalg example_history example_vector 0 = Inr r"
    by (simp add: transition_prob_def r)
  with r show ?thesis by (simp add: example_history_def example_vector_def)
qed

section \<open>Properties of the admixture tensor\<close>

lemma collect_map_Inr:
  "(\<And>x. x \<in> set xs \<Longrightarrow> f x = Inr (h x)) \<Longrightarrow> collect (map f xs) = Inr (map h xs)"
  by (induction xs) auto

lemma comb_nat: "comb (int a) (int b) = real (a choose b)"
  by (simp add: comb_def binomial_eq_0)

lemma comb_diff:
  "d \<le> n \<Longrightarrow> k \<le> m \<Longrightarrow> comb (int n - int d) (int m - int k) = real ((n - d) choose (m - k))"
  using comb_nat [of "n - d" "m - k"] by (simp add: of_nat_diff)

lemma length_convolve: "a \<noteq> [] \<Longrightarrow> b \<noteq> [] \<Longrightarrow> length (convolve a b) = length a + length b - 1"
  by (simp add: convolve_def)

lemma sum_list_convolve:
  assumes "a \<noteq> []" "b \<noteq> []"
  shows "sum_list (convolve a b) = sum_list a * sum_list b"
proof -
  let ?la = "length a" and ?lb = "length b"
  let ?g = "\<lambda>i k. if i \<le> k \<and> k - i < ?lb then a ! i * b ! (k - i) else 0"
  have lb: "0 < ?lb" using assms by simp
  have inner: "(\<Sum>k<?la + ?lb - 1. ?g i k) = a ! i * sum_list b" if "i < ?la" for i
  proof -
    have sub: "{i..<i + ?lb} \<subseteq> {..<?la + ?lb - 1}" using that lb by auto
    have "(\<Sum>k<?la + ?lb - 1. ?g i k) = (\<Sum>k\<in>{i..<i + ?lb}. ?g i k)"
      by (rule sum.mono_neutral_right [OF _ sub]) auto
    also have "\<dots> = (\<Sum>k\<in>{i..<i + ?lb}. a ! i * b ! (k - i))"
      by (rule sum.cong) auto
    also have "\<dots> = (\<Sum>j\<in>{0..<?lb}. a ! i * b ! j)"
      using sum.shift_bounds_nat_ivl [of "\<lambda>k. a ! i * b ! (k - i)" 0 i ?lb]
      by (simp add: add.commute)
    also have "\<dots> = a ! i * (\<Sum>j\<in>{0..<?lb}. b ! j)"
      by (simp add: sum_distrib_left)
    also have "(\<Sum>j\<in>{0..<?lb}. b ! j) = sum_list b"
      by (simp add: sum_list_sum_nth)
    finally show ?thesis .
  qed
  have "sum_list (convolve a b) = (\<Sum>k<?la + ?lb - 1. \<Sum>i<?la. ?g i k)"
    using assms by (simp add: convolve_def interv_sum_list_conv_sum_set_nat atLeast0LessThan)
  also have "\<dots> = (\<Sum>i<?la. \<Sum>k<?la + ?lb - 1. ?g i k)"
    by (rule sum.swap)
  also have "\<dots> = (\<Sum>i<?la. a ! i * sum_list b)"
    using inner by (intro sum.cong refl) simp
  also have "\<dots> = (\<Sum>i<?la. a ! i) * sum_list b"
    by (simp add: sum_distrib_right)
  also have "(\<Sum>i<?la. a ! i) = sum_list a"
    by (simp add: sum_list_sum_nth atLeast0LessThan)
  finally show ?thesis .
qed

lemma length_hypergeom_kernel: "length (hypergeom_kernel n m d) = m + 1"
  by (simp add: hypergeom_kernel_def Let_def)

lemma sum_list_hypergeom_kernel:
  assumes "d \<le> n" "m \<le> n"
  shows "sum_list (hypergeom_kernel n m d) = 1"
proof -
  have pos: "real (n choose m) \<noteq> 0" using assms by simp
  have "sum_list (hypergeom_kernel n m d)
          = (\<Sum>k\<le>m. real (d choose k) * real ((n - d) choose (m - k)) / real (n choose m))"
    unfolding hypergeom_kernel_def Let_def interv_sum_list_conv_sum_set_nat
    using assms by (intro sum.cong) (auto simp: comb_nat comb_diff)
  also have "\<dots> = real (\<Sum>k\<le>m. (d choose k) * ((n - d) choose (m - k))) / real (n choose m)"
    by (simp add: sum_divide_distrib)
  also have "(\<Sum>k\<le>m. (d choose k) * ((n - d) choose (m - k))) = (d + (n - d)) choose m"
    by (rule vandermonde)
  also have "d + (n - d) = n" using assms by simp
  finally show ?thesis using pos by simp
qed

lemma der_in_admixture_node_sum:
  assumes "d1 \<le> n1 + n2" "d2 \<le> n1 + n2"
  shows "\<exists>ks. der_in_admixture_node n1 n2 d1 d2 = Inr ks \<and> length ks = n1 + n2 + 1
           \<and> sum_list ks = 1"
proof -
  let ?a = "hypergeom_kernel (n1 + n2) n1 d1" and ?b = "hypergeom_kernel (n1 + n2) n2 d2"
  have ne: "?a \<noteq> []" "?b \<noteq> []"
    using length_hypergeom_kernel [of "n1 + n2" n1 d1] length_hypergeom_kernel [of "n1 + n2" n2 d2]
    by auto
  have len: "length (convolve ?a ?b) = n1 + n2 + 1"
    using length_convolve [OF ne] by (simp add: length_hypergeom_kernel)
  have "sum_list (convolve ?a ?b) = 1"
    using sum_list_convolve [OF ne] assms by (simp add: sum_list_hypergeom_kernel)
  with len show ?thesis
    by (simp add: der_in_admixture_node_def Let_def)
qed

lemma foldl_add_sum_list: "foldl (+) (s::real) xs = s + sum_list xs"
  by (induction xs arbitrary: s) (simp_all add: add.assoc)

lemma admixture_entry_value:
  assumes "d1 \<le> n" "d2 \<le> n"
  shows "admixture_entry n prob1 prob2 c d1 d2 = Inr (entry_value n prob1 prob2 c d1 d2)"
proof -
  let ?h = "\<lambda>n1. real (n choose n1) * prob1 ^ n1 * prob2 ^ (n - n1)
        * (case der_in_admixture_node n1 (n - n1) d1 d2 of Inr ks \<Rightarrow> ks ! c | Inl e \<Rightarrow> 0)"
  have "collect
          (map (\<lambda>n_from_1.
                  (let n_from_2 = n - n_from_1 in
                   case der_in_admixture_node n_from_1 n_from_2 d1 d2 of
                     Inl e \<Rightarrow> Inl e
                   | Inr ks \<Rightarrow>
                       Inr (comb (int n) (int n_from_1) * prob1 ^ n_from_1
                            * prob2 ^ n_from_2 * ks ! c)))
             [0 ..< n + 1]) = Inr (map ?h [0 ..< n + 1])"
  proof (rule collect_map_Inr)
    fix n1 assume "n1 \<in> set [0 ..< n + 1]"
    then have le: "n1 \<le> n" by auto
    then have "d1 \<le> n1 + (n - n1)" "d2 \<le> n1 + (n - n1)" using assms by auto
    from der_in_admixture_node_sum [OF this]
    obtain ks where "der_in_admixture_node n1 (n - n1) d1 d2 = Inr ks" by blast
    then show "(let n_from_2 = n - n1 in
                   case der_in_admixture_node n1 n_from_2 d1 d2 of
                     Inl e \<Rightarrow> Inl e
                   | Inr ks \<Rightarrow>
                       Inr (comb (int n) (int n1) * prob1 ^ n1
                            * prob2 ^ n_from_2 * ks ! c)) = Inr (?h n1)"
      by (simp add: comb_nat)
  qed
  then show ?thesis
    unfolding admixture_entry_def entry_value_def
    by (simp add: foldl_add_sum_list interv_sum_list_conv_sum_set_nat atLeast0AtMost
        atLeastLessThanSuc_atLeastAtMost del: upt_Suc)
qed

lemma entry_value_sum:
  assumes "d1 \<le> n" "d2 \<le> n" "prob1 + prob2 = 1"
  shows "(\<Sum>c\<le>n. entry_value n prob1 prob2 c d1 d2) = 1"
proof -
  let ?w = "\<lambda>n1. real (n choose n1) * prob1 ^ n1 * prob2 ^ (n - n1)"
  let ?k = "\<lambda>n1 c. case der_in_admixture_node n1 (n - n1) d1 d2 of Inr ks \<Rightarrow> ks ! c | Inl e \<Rightarrow> 0"
  have row: "(\<Sum>c\<le>n. ?k n1 c) = 1" if "n1 \<le> n" for n1
  proof -
    from that assms have "d1 \<le> n1 + (n - n1)" "d2 \<le> n1 + (n - n1)" by auto
    from der_in_admixture_node_sum [OF this] that
    obtain ks where ks: "der_in_admixture_node n1 (n - n1) d1 d2 = Inr ks"
      "length ks = n + 1" "sum_list ks = 1" by auto
    have "(\<Sum>c\<le>n. ?k n1 c) = (\<Sum>c\<le>n. ks ! c)" by (simp add: ks)
    also have "\<dots> = sum_list ks"
      using ks(2) by (simp add: sum_list_sum_nth atLeast0LessThan lessThan_Suc_atMost)
    finally show ?thesis by (simp add: ks)
  qed
  have "(\<Sum>c\<le>n. entry_value n prob1 prob2 c d1 d2) = (\<Sum>c\<le>n. \<Sum>n1\<le>n. ?w n1 * ?k n1 c)"
    by (simp add: entry_value_def)
  also have "\<dots> = (\<Sum>n1\<le>n. \<Sum>c\<le>n. ?w n1 * ?k n1 c)"
    by (rule sum.swap)
  also have "\<dots> = (\<Sum>n1\<le>n. ?w n1 * (\<Sum>c\<le>n. ?k n1 c))"
    by (simp add: sum_distrib_left)
  also have "\<dots> = (\<Sum>n1\<le>n. ?w n1)"
    by (rule sum.cong) (simp_all add: row)
  also have "\<dots> = (prob1 + prob2) ^ n"
    by (simp add: binomial_ring)
  finally show ?thesis using assms by simp
qed

lemma admixture_tensor_value:
  "admixture_tensor n prob1 prob2 =
     Inr (map (\<lambda>c. map (\<lambda>d1. map (\<lambda>d2. entry_value n prob1 prob2 c d1 d2) [0 ..< n + 1])
                  [0 ..< n + 1]) [0 ..< n + 1])"
  unfolding admixture_tensor_def
  by (intro collect_map_Inr) (auto simp: admixture_entry_value)

text \<open>
  The scenario of the specification: one lineage, split probabilities one half.
\<close>

lemma admixture_tensor_one_half:
  "admixture_tensor 1 (1 / 2) (1 / 2) = Inr [[[1, 1 / 2], [1 / 2, 0]], [[0, 1 / 2], [1 / 2, 1]]]"
  by (simp add: admixture_tensor_value entry_value_def der_in_admixture_node_def Let_def
      convolve_def hypergeom_kernel_def comb_def lessThan_Suc atMost_Suc)

text \<open>
  Claim C3. For an admixture node with \<open>n\<close> lineages, two parents and split
  probabilities that sum to \<open>1\<close>, \<^verbatim>\<open>admixture_prob\<close> returns a tensor over the axes
  \<open>[child, parent1, parent2]\<close>, each of size \<open>n + 1\<close>, and its sum over the child axis is
  \<open>1\<close> at every pair of parent counts.
\<close>

theorem admixture_prob_sums_to_one:
  assumes "n_lineages_at_node g v = Inr (int n)"
    and "remdups [ed \<leftarrow> edges g. snd ed = v] = [(parent1, v), (parent2, v)]"
    and "splitprobs g v = Some sp" and "sp parent1 = Some prob1" and "sp parent2 = Some prob2"
    and "prob1 + prob2 = 1"
  shows "\<exists>T. admixture_prob g v = Inr \<lparr>array = T, axes = [v, parent1, parent2]\<rparr>
           \<and> length T = n + 1
           \<and> (\<forall>par1_der\<le>n. \<forall>par2_der\<le>n.
                 length (T ! par1_der) = n + 1 \<and> length (T ! par1_der ! par2_der) = n + 1 \<and>
                 (\<Sum>child_der\<le>n. T ! child_der ! par1_der ! par2_der) = 1)"
proof -
  let ?T = "map (\<lambda>c. map (\<lambda>d1. map (\<lambda>d2. entry_value n prob1 prob2 c d1 d2) [0 ..< n + 1])
                  [0 ..< n + 1]) [0 ..< n + 1]"
  have "admixture_prob g v = Inr \<lparr>array = ?T, axes = [v, parent1, parent2]\<rparr>"
    using assms by (simp add: admixture_prob_def admixture_tensor_value del: upt_Suc)
  moreover have "length ?T = n + 1" by simp
  moreover have "length (?T ! d1) = n + 1 \<and> length (?T ! d1 ! d2) = n + 1 \<and>
      (\<Sum>c\<le>n. ?T ! c ! d1 ! d2) = 1" if "d1 \<le> n" "d2 \<le> n" for d1 d2
  proof -
    have "(\<Sum>c\<le>n. ?T ! c ! d1 ! d2) = (\<Sum>c\<le>n. entry_value n prob1 prob2 c d1 d2)"
      using that by (intro sum.cong refl) (simp del: upt_Suc)
    then show ?thesis
      using that entry_value_sum [OF that assms(6)] by (simp del: upt_Suc)
  qed
  ultimately show ?thesis by blast
qed

lemma admix_graph_root: "root_of admix_graph = Inr ''r''"
  by (simp add: root_of_def admix_graph_def)

lemma admix_graph_postorder: "dfs_postorder_nodes admix_graph ''r'' = [''c'', ''p1'', ''p2'', ''r'']"
  by (simp add: dfs_postorder_nodes_def successors_def admix_graph_def)

lemma admix_graph_lineages: "n_lineages_at_node admix_graph ''c'' = Inr (int 1)"
  by (simp add: n_lineages_at_node_def admix_graph_root admix_graph_postorder)
     (simp add: lineages_of_def admix_graph_def leaves_def successors_def)

theorem admixture_prob_sums_to_one_witness:
  "n_lineages_at_node admix_graph ''c'' = Inr (int 1) \<and>
   remdups [ed \<leftarrow> edges admix_graph. snd ed = ''c''] = [(''p1'', ''c''), (''p2'', ''c'')] \<and>
   (\<exists>T. admixture_prob admix_graph ''c'' = Inr \<lparr>array = T, axes = [''c'', ''p1'', ''p2'']\<rparr>
      \<and> length T = 1 + 1
      \<and> (\<forall>par1_der\<le>1. \<forall>par2_der\<le>1.
            length (T ! par1_der) = 1 + 1 \<and> length (T ! par1_der ! par2_der) = 1 + 1 \<and>
            (\<Sum>child_der\<le>1. T ! child_der ! par1_der ! par2_der) = 1))"
proof -
  have e: "remdups [ed \<leftarrow> edges admix_graph. snd ed = ''c''] = [(''p1'', ''c''), (''p2'', ''c'')]"
    by (simp add: admix_graph_def)
  have s: "splitprobs admix_graph ''c'' = Some [''p1'' \<mapsto> 1 / 2, ''p2'' \<mapsto> 1 / 2]"
    by (simp add: admix_graph_def)
  have p: "[''p1'' \<mapsto> 1 / 2, ''p2'' \<mapsto> 1 / (2::real)] ''p1'' = Some (1 / 2)"
    "[''p1'' \<mapsto> 1 / 2, ''p2'' \<mapsto> 1 / (2::real)] ''p2'' = Some (1 / 2)" by simp_all
  have q: "1 / 2 + 1 / 2 = (1::real)" by simp
  from admixture_prob_sums_to_one [OF admix_graph_lineages e s p q] admix_graph_lineages e
  show ?thesis by simp
qed

section \<open>Properties of the state update\<close>

lemma update_nodes_append:
  "update_nodes (pre @ rest) nd =
     (case update_nodes pre nd of
        (None, nd1) \<Rightarrow> update_nodes rest nd1
      | (Some e, nd1) \<Rightarrow> (Some e, nd1))"
  by (induction pre nd rule: update_nodes.induct) (auto split: prod.splits option.splits)

lemma update_node_ok:
  "update_node k u nd = (None, nd2) \<Longrightarrow> \<exists>old. nd k = Some old \<and> nd2 = nd(k \<mapsto> old ++ u)"
  by (auto simp: update_node_def Let_def split: option.splits if_splits)

lemma update_nodes_values:
  assumes "update_nodes pre nd = (None, nd1)" and "distinct (map fst pre)"
  shows "(\<forall>(n, u)\<in>set pre. \<exists>old. nd n = Some old \<and> nd1 n = Some (old ++ u))
         \<and> (\<forall>n. n \<notin> fst ` set pre \<longrightarrow> nd1 n = nd n)"
  using assms
proof (induction pre arbitrary: nd)
  case Nil
  then show ?case by simp
next
  case (Cons x pre)
  obtain k u where x: "x = (k, u)" by (cases x)
  from Cons.prems(1) obtain nd2 where step: "update_node k u nd = (None, nd2)"
    and rest: "update_nodes pre nd2 = (None, nd1)"
    unfolding x by (auto split: prod.splits option.splits)
  from update_node_ok [OF step] obtain old where old: "nd k = Some old"
    and nd2: "nd2 = nd(k \<mapsto> old ++ u)" by blast
  from Cons.prems(2) have d: "distinct (map fst pre)" and k: "k \<notin> fst ` set pre"
    unfolding x by auto
  from Cons.IH [OF rest d]
  have ih1: "\<forall>(n, u)\<in>set pre. \<exists>old. nd2 n = Some old \<and> nd1 n = Some (old ++ u)"
    and ih2: "\<forall>n. n \<notin> fst ` set pre \<longrightarrow> nd1 n = nd2 n" by auto
  have "nd1 k = Some (old ++ u)" using ih2 k by (simp add: nd2)
  moreover have "\<exists>was. nd n = Some was \<and> nd1 n = Some (was ++ v)" if "(n, v) \<in> set pre" for n v
  proof -
    from that k have "n \<noteq> k" by force
    with ih1 that show ?thesis by (fastforce simp: nd2)
  qed
  moreover have "nd1 n = nd n" if "n \<notin> fst ` set (x # pre)" for n
    using that ih2 unfolding x by (auto simp: nd2)
  ultimately show ?case unfolding x using old by auto
qed

text \<open>
  Claim C10. \<^verbatim>\<open>update_state\<close> is not atomic. When the nodes of \<open>pre\<close> pass and the
  next node \<open>k\<close> fails the check \<open>lineages = derived + ancestral\<close>, the exception is
  raised and the graph is left with the new values written at \<open>k\<close> and at every node of
  \<open>pre\<close>; nodes outside the processed prefix keep their values, and nothing is rolled back.
\<close>

theorem update_state_not_atomic:
  assumes "distinct (map fst (pre @ [(k, upd)]))"
    and "update_nodes pre (node_data g) = (None, nd1)"
    and "node_data g k = Some old"
    and "(old ++ upd) ''lineages'' = Some l"
    and "(old ++ upd) ''derived'' = Some d"
    and "(old ++ upd) ''ancestral'' = Some a"
    and "l \<noteq> d + a"
  shows "\<exists>g'. update_state (pre @ (k, upd) # post) g =
                 (Some (PyException (''derived + ancestral must add to lineages at node '' @ k)), g')
           \<and> node_data g' k = Some (old ++ upd)
           \<and> (\<forall>(n, u)\<in>set pre. \<exists>was. node_data g n = Some was \<and> node_data g' n = Some (was ++ u))
           \<and> (\<forall>n. n \<notin> fst ` set (pre @ [(k, upd)]) \<longrightarrow> node_data g' n = node_data g n)"
proof -
  from assms(1) have dp: "distinct (map fst pre)" and k: "k \<notin> fst ` set pre" by auto
  from update_nodes_values [OF assms(2) dp]
  have v1: "\<forall>(n, u)\<in>set pre. \<exists>was. node_data g n = Some was \<and> nd1 n = Some (was ++ u)"
    and v2: "\<forall>n. n \<notin> fst ` set pre \<longrightarrow> nd1 n = node_data g n" by auto
  have nk: "nd1 k = Some old" using v2 k assms(3) by simp
  let ?nd2 = "nd1(k \<mapsto> old ++ upd)"
  let ?msg = "PyException (''derived + ancestral must add to lineages at node '' @ k)"
  have "update_node k upd nd1 = (Some ?msg, ?nd2)"
    using assms(4-7) by (simp add: update_node_def nk Let_def)
  then have "update_nodes ((k, upd) # post) nd1 = (Some ?msg, ?nd2)"
    by simp
  then have "update_nodes (pre @ (k, upd) # post) (node_data g) = (Some ?msg, ?nd2)"
    by (simp add: update_nodes_append assms(2))
  then have "update_state (pre @ (k, upd) # post) g = (Some ?msg, g\<lparr>node_data := ?nd2\<rparr>)"
    by (simp add: update_state_def)
  moreover have "\<exists>was. node_data g n = Some was \<and> ?nd2 n = Some (was ++ u)"
    if "(n, u) \<in> set pre" for n u
  proof -
    from that k have "n \<noteq> k" by force
    with v1 that show ?thesis by fastforce
  qed
  moreover have "?nd2 n = node_data g n" if "n \<notin> fst ` set (pre @ [(k, upd)])" for n
    using that v2 by auto
  ultimately show ?thesis by auto
qed

theorem update_state_not_atomic_witness:
  "distinct (map fst bad_state) \<and>
   fst (update_state bad_state two_leaf_graph) =
     Some (PyException ''derived + ancestral must add to lineages at node b'') \<and>
   node_data (snd (update_state bad_state two_leaf_graph)) ''a'' =
     Some [''lineages'' \<mapsto> 2, ''derived'' \<mapsto> 1, ''ancestral'' \<mapsto> 1] \<and>
   node_data (snd (update_state bad_state two_leaf_graph)) ''b'' =
     Some [''lineages'' \<mapsto> 2, ''derived'' \<mapsto> 2, ''ancestral'' \<mapsto> 2] \<and>
   node_data two_leaf_graph ''a'' = Some [''lineages'' \<mapsto> 2] \<and>
   snd (update_state bad_state two_leaf_graph) \<noteq> two_leaf_graph"
proof -
  let ?ua = "[''derived'' \<mapsto> 1, ''ancestral'' \<mapsto> (1::int)]"
  let ?ub = "[''derived'' \<mapsto> 2, ''ancestral'' \<mapsto> (2::int)]"
  let ?old = "[''lineages'' \<mapsto> (2::int)]"
  let ?nd1 = "(node_data two_leaf_graph)(''a'' \<mapsto> ?old ++ ?ua)"
  have bs: "bad_state = [(''a'', ?ua)] @ (''b'', ?ub) # []" by (simp add: bad_state_def)
  have d: "distinct (map fst ([(''a'', ?ua)] @ [(''b'', ?ub)]))" by simp
  have p: "update_nodes [(''a'', ?ua)] (node_data two_leaf_graph) = (None, ?nd1)"
    by (simp add: two_leaf_graph_def update_node_def Let_def)
  have o: "node_data two_leaf_graph ''b'' = Some ?old" by (simp add: two_leaf_graph_def)
  have l: "(?old ++ ?ub) ''lineages'' = Some 2" "(?old ++ ?ub) ''derived'' = Some 2"
    "(?old ++ ?ub) ''ancestral'' = Some 2" by simp_all
  have ne: "(2::int) \<noteq> 2 + 2" by simp
  from update_state_not_atomic [OF d p o l ne, of "[]"]
  obtain g' where g': "update_state bad_state two_leaf_graph =
        (Some (PyException (''derived + ancestral must add to lineages at node '' @ ''b'')), g')"
    "node_data g' ''b'' = Some (?old ++ ?ub)"
    "\<forall>(n, u)\<in>set [(''a'', ?ua)]. \<exists>was. node_data two_leaf_graph n = Some was
        \<and> node_data g' n = Some (was ++ u)"
    unfolding bs [symmetric] by blast
  have a0: "node_data two_leaf_graph ''a'' = Some ?old" by (simp add: two_leaf_graph_def)
  from g'(3) a0 have a1: "node_data g' ''a'' = Some (?old ++ ?ua)" by simp
  have e1: "?old ++ ?ua = [''lineages'' \<mapsto> 2, ''derived'' \<mapsto> 1, ''ancestral'' \<mapsto> 1]"
    by (rule ext) simp
  have e2: "?old ++ ?ub = [''lineages'' \<mapsto> 2, ''derived'' \<mapsto> 2, ''ancestral'' \<mapsto> 2]"
    by (rule ext) simp
  have "?old ++ ?ua \<noteq> ?old"
  proof
    assume "?old ++ ?ua = ?old"
    then have "(?old ++ ?ua) ''derived'' = ?old ''derived''" by (rule arg_cong)
    then show False by simp
  qed
  with a0 a1 have "g' \<noteq> two_leaf_graph" by auto
  with g' a0 a1 e1 e2 show ?thesis by (simp add: bad_state_def)
qed

section \<open>Properties of the normalizing constant\<close>

lemma update_state_frame:
  assumes "update_state st g = (r, g')"
  shows "nodes g' = nodes g \<and> edges g' = edges g \<and> splitprobs g' = splitprobs g
         \<and> events g' = events g \<and> totalSfsSum_cache g' = totalSfsSum_cache g
         \<and> leaves g' = leaves g"
  using assms
  by (auto simp: update_state_def leaves_def Let_def split: prod.splits option.splits if_splits)

lemma update_state_values:
  assumes "update_state st g = (None, g')" and "distinct (map fst st)"
  shows "(\<forall>(n, u)\<in>set st. \<exists>old. node_data g n = Some old \<and> node_data g' n = Some (old ++ u))
         \<and> (\<forall>n. n \<notin> fst ` set st \<longrightarrow> node_data g' n = node_data g n)"
proof -
  from assms(1) obtain nd' where "update_nodes st (node_data g) = (None, nd')"
    and "node_data g' = nd'"
    by (auto simp: update_state_def Let_def split: prod.splits option.splits if_splits)
  with update_nodes_values [OF _ assms(2)] show ?thesis by simp
qed

lemma collect_pairs:
  "collect (map (\<lambda>v. case F v of Inl e \<Rightarrow> Inl e | Inr l \<Rightarrow> Inr (v, G l)) vs) = Inr st
     \<Longrightarrow> map fst st = vs \<and> (\<forall>(v, u)\<in>set st. \<exists>l. F v = Inr l \<and> u = G l)"
  by (induction vs arbitrary: st) (auto split: sum.splits)

lemma gather_entries:
  "gather vs f = Some r \<Longrightarrow> map fst r = vs \<and> (\<forall>(v, a)\<in>set r. f v = Some a)"
  by (induction vs arbitrary: r) (auto split: option.splits)

lemma gather_None: "gather vs f = None \<longleftrightarrow> (\<exists>v\<in>set vs. f v = None)"
  by (induction vs) (auto split: option.splits)

lemma distinct_leaves: "distinct (leaves g)"
  by (simp add: leaves_def)

lemma lineages_of_cong: "node_data g' v = node_data g v \<Longrightarrow> lineages_of g' v = lineages_of g v"
  by (simp add: lineages_of_def)

lemma body_cases:
  assumes "normalizing_constant_body sp g = (Inr ret, g')"
  obtains st0 g1 tree st1 g2 where
    "all_ancestral g = Inr st0" "update_state st0 g = (None, g1)"
    "eventTree g1 = Inr tree" "all_derived g1 = Inr st1" "update_state st1 g1 = (None, g2)"
    "ret = branch_sum sp g1 tree - p sp g2"
    "(prev_state_of g = None \<and> g' = g2)
       \<or> (\<exists>ps. prev_state_of g = Some ps \<and> update_state ps g2 = (None, g'))"
  using assms unfolding normalizing_constant_body_def Let_def
  by (auto split: sum.splits prod.splits option.splits)

lemma restore_attrs:
  assumes "nd ''ancestral'' = Some a" "nd ''derived'' = Some d"
  shows "nd ++ [''derived'' \<mapsto> x0, ''ancestral'' \<mapsto> y0] ++ [''derived'' \<mapsto> x1, ''ancestral'' \<mapsto> y1]
            ++ [''ancestral'' \<mapsto> a, ''derived'' \<mapsto> d] = nd"
  using assms by (intro ext) (auto simp: map_add_def)

lemma overwrite_attrs:
  "nd ++ [''derived'' \<mapsto> x0, ''ancestral'' \<mapsto> y0] ++ [''derived'' \<mapsto> x1, ''ancestral'' \<mapsto> y1]
     = nd ++ [''derived'' \<mapsto> x1, ''ancestral'' \<mapsto> (y1::int)]"
  by (intro ext) (auto simp: map_add_def)

lemma body_state:
  assumes b: "normalizing_constant_body sp g = (Inr ret, g')"
  shows "((\<forall>v\<in>set (leaves g). leaf_observation g v \<noteq> None) \<longrightarrow> node_data g' = node_data g)
       \<and> ((\<exists>v\<in>set (leaves g). leaf_observation g v = None) \<longrightarrow>
            (\<forall>v\<in>set (leaves g). \<exists>nd l. node_data g v = Some nd \<and> nd ''lineages'' = Some l
                \<and> node_data g' v = Some (nd ++ [''derived'' \<mapsto> l, ''ancestral'' \<mapsto> 0])))
       \<and> (\<forall>v. v \<notin> set (leaves g) \<longrightarrow> node_data g' v = node_data g v)
       \<and> nodes g' = nodes g \<and> edges g' = edges g \<and> splitprobs g' = splitprobs g
       \<and> events g' = events g \<and> totalSfsSum_cache g' = totalSfsSum_cache g"
proof -
  from b obtain st0 g1 tree st1 g2 where
    s0: "all_ancestral g = Inr st0" and u0: "update_state st0 g = (None, g1)"
    and s1: "all_derived g1 = Inr st1" and u1: "update_state st1 g1 = (None, g2)"
    and fin: "(prev_state_of g = None \<and> g' = g2)
       \<or> (\<exists>ps. prev_state_of g = Some ps \<and> update_state ps g2 = (None, g'))"
    by (rule body_cases)
  note f1 = update_state_frame [OF u0] and f2 = update_state_frame [OF u1]
  from collect_pairs [OF s0 [unfolded all_ancestral_def]]
  have k0: "map fst st0 = leaves g"
    and e0: "\<forall>(v, u)\<in>set st0. \<exists>l. lineages_of g v = Inr l \<and> u = [''derived'' \<mapsto> 0, ''ancestral'' \<mapsto> l]"
    by auto
  from collect_pairs [OF s1 [unfolded all_derived_def]] f1
  have k1: "map fst st1 = leaves g"
    and e1: "\<forall>(v, u)\<in>set st1. \<exists>l. lineages_of g1 v = Inr l \<and> u = [''derived'' \<mapsto> l, ''ancestral'' \<mapsto> 0]"
    by auto
  have d0: "distinct (map fst st0)" and d1: "distinct (map fst st1)"
    by (simp_all add: k0 k1 distinct_leaves)
  note v0 = update_state_values [OF u0 d0] and v1 = update_state_values [OF u1 d1]
  have s0set: "fst ` set st0 = set (leaves g)" using k0 by (metis set_map)
  have s1set: "fst ` set st1 = set (leaves g)" using k1 by (metis set_map)
  \<comment> \<open>the state of a leaf after the two boundary updates\<close>
  have leaf2: "\<exists>nd l. node_data g v = Some nd \<and> nd ''lineages'' = Some l
                 \<and> node_data g2 v = Some (nd ++ [''derived'' \<mapsto> l, ''ancestral'' \<mapsto> 0])"
    if v: "v \<in> set (leaves g)" for v
  proof -
    from v s0set obtain u where in0: "(v, u) \<in> set st0" by force
    with e0 obtain l where l: "lineages_of g v = Inr l"
      and u: "u = [''derived'' \<mapsto> 0, ''ancestral'' \<mapsto> l]" by auto
    from in0 v0 obtain nd where nd: "node_data g v = Some nd"
      and nd1: "node_data g1 v = Some (nd ++ u)" by auto
    from l nd have nl: "nd ''lineages'' = Some l"
      by (auto simp: lineages_of_def split: option.splits)
    from v s1set obtain w where in1: "(v, w) \<in> set st1" by force
    with e1 obtain l' where l': "lineages_of g1 v = Inr l'"
      and w: "w = [''derived'' \<mapsto> l', ''ancestral'' \<mapsto> 0]" by auto
    from l' nd1 nl have "l' = l"
      by (auto simp: lineages_of_def u map_add_def split: option.splits)
    from in1 v1 nd1 have "node_data g2 v = Some (nd ++ u ++ w)" by auto
    then have "node_data g2 v = Some (nd ++ [''derived'' \<mapsto> l, ''ancestral'' \<mapsto> 0])"
      unfolding u w \<open>l' = l\<close> by (simp only: overwrite_attrs)
    with nd nl show ?thesis by blast
  qed
  have other2: "node_data g2 v = node_data g v" if "v \<notin> set (leaves g)" for v
    using that v0 v1 s0set s1set by auto
  from fin show ?thesis
  proof (elim disjE conjE exE)
    assume none: "prev_state_of g = None" and g': "g' = g2"
    then have ex: "\<exists>v\<in>set (leaves g). leaf_observation g v = None"
      by (simp add: prev_state_of_def gather_None)
    show ?thesis
      using ex leaf2 other2 f1 f2 unfolding g' by auto
  next
    fix ps
    assume ps: "prev_state_of g = Some ps" and u2: "update_state ps g2 = (None, g')"
    note f3 = update_state_frame [OF u2]
    from gather_entries [OF ps [unfolded prev_state_of_def]]
    have k2: "map fst ps = leaves g"
      and e2: "\<forall>(v, a)\<in>set ps. leaf_observation g v = Some a" by auto
    have d2: "distinct (map fst ps)" by (simp add: k2 distinct_leaves)
    note v2 = update_state_values [OF u2 d2]
    have s2set: "fst ` set ps = set (leaves g)" using k2 by (metis set_map)
    have all: "\<forall>v\<in>set (leaves g). leaf_observation g v \<noteq> None"
      using ps gather_None [of "leaves g" "leaf_observation g"] by (simp add: prev_state_of_def)
    have same: "node_data g' v = node_data g v" for v
    proof (cases "v \<in> set (leaves g)")
      case False
      then show ?thesis using other2 v2 s2set by auto
    next
      case True
      from leaf2 [OF True] obtain nd l where nd: "node_data g v = Some nd"
        and n2: "node_data g2 v = Some (nd ++ [''derived'' \<mapsto> l, ''ancestral'' \<mapsto> 0])" by blast
      from True s2set obtain a where in2: "(v, a) \<in> set ps" by force
      with e2 have "leaf_observation g v = Some a" by auto
      with nd obtain x y where x: "nd ''ancestral'' = Some x" and y: "nd ''derived'' = Some y"
        and a: "a = [''ancestral'' \<mapsto> x, ''derived'' \<mapsto> y]"
        by (auto simp: leaf_observation_def split: option.splits)
      from in2 v2 n2 have "node_data g' v = Some (nd ++ [''derived'' \<mapsto> l, ''ancestral'' \<mapsto> 0] ++ a)"
        by auto
      also have "nd ++ [''derived'' \<mapsto> l, ''ancestral'' \<mapsto> 0] ++ a = nd"
        unfolding a using x y by (intro ext) (auto simp: map_add_def)
      finally show ?thesis using nd by simp
    qed
    then have "node_data g' = node_data g" by (rule ext)
    with all f1 f2 f3 show ?thesis by auto
  qed
qed

lemma normalizing_constant_Inr:
  "normalizing_constant sp g = (Inr r, g') \<longleftrightarrow> normalizing_constant_body sp g = (Inr r, g') \<and> 0 < r"
  by (auto simp: normalizing_constant_def split: prod.splits sum.splits if_splits)

lemma valid_updateE:
  assumes "valid_update nd u"
  obtains l d a where "(nd ++ u) ''lineages'' = Some l" "(nd ++ u) ''derived'' = Some d"
    "(nd ++ u) ''ancestral'' = Some a" "l = d + a"
proof -
  define w where "w = nd ++ u"
  from assms have "case (w ''lineages'', w ''derived'', w ''ancestral'') of
        (Some l, Some d, Some a) \<Rightarrow> l = d + a | _ \<Rightarrow> False"
    by (simp only: valid_update_def w_def)
  then obtain l d a where "w ''lineages'' = Some l" "w ''derived'' = Some d"
    "w ''ancestral'' = Some a" "l = d + a"
    by (auto split: option.splits)
  then show ?thesis unfolding w_def by (rule that)
qed

lemma valid_updateI:
  assumes "(nd ++ u) ''lineages'' = Some l" "(nd ++ u) ''derived'' = Some d"
    "(nd ++ u) ''ancestral'' = Some a" "l = d + a"
  shows "valid_update nd u"
proof -
  define w where "w = nd ++ u"
  from assms have "w ''lineages'' = Some l" "w ''derived'' = Some d"
    "w ''ancestral'' = Some a" by (simp_all only: w_def)
  with assms(4) have "case (w ''lineages'', w ''derived'', w ''ancestral'') of
        (Some l, Some d, Some a) \<Rightarrow> l = d + a | _ \<Rightarrow> False" by simp
  then show ?thesis by (simp only: valid_update_def w_def)
qed

lemma update_node_valid:
  assumes "m v = Some nd" "valid_update nd u"
  shows "update_node v u m = (None, m(v \<mapsto> nd ++ u))"
proof -
  define w where "w = nd ++ u"
  from valid_updateE [OF assms(2)] obtain l d a where "w ''lineages'' = Some l"
    "w ''derived'' = Some d" "w ''ancestral'' = Some a" "l = d + a"
    unfolding w_def by blast
  then have "(case m v of
        None \<Rightarrow> (Some KeyError, m)
      | Some ndn \<Rightarrow>
          (let ndn' = w;
               nd' = m(v \<mapsto> ndn')
           in case (ndn' ''lineages'', ndn' ''derived'', ndn' ''ancestral'') of
                (Some l, Some d, Some a) \<Rightarrow>
                  if l \<noteq> d + a
                  then (Some (PyException
                          (''derived + ancestral must add to lineages at node '' @ v)), nd')
                  else (None, nd')
              | _ \<Rightarrow> (Some KeyError, nd'))) = (None, m(v \<mapsto> w))"
    by (simp add: assms(1) Let_def)
  then show ?thesis
    unfolding update_node_def w_def using assms(1) by simp
qed

lemma valid_update_derived: "valid_update nd u \<Longrightarrow> \<exists>d. (nd ++ u) ''derived'' = Some d"
  by (erule valid_updateE) (rule exI)

lemma update_nodes_succeeds:
  assumes "distinct (map fst st)"
    and "\<And>v u. (v, u) \<in> set st \<Longrightarrow> \<exists>nd. m v = Some nd \<and> valid_update nd u"
  shows "\<exists>m'. update_nodes st m = (None, m')"
  using assms
proof (induction st arbitrary: m)
  case Nil
  then show ?case by simp
next
  case (Cons x st)
  obtain v u where x: "x = (v, u)" by (cases x)
  have "(v, u) \<in> set (x # st)" by (simp add: x)
  from Cons.prems(2) [OF this] obtain nd where nd: "m v = Some nd" and ok: "valid_update nd u"
    by blast
  note step = update_node_valid [of m v nd u, OF nd ok]
  from Cons.prems(1) have d: "distinct (map fst st)" and nv: "v \<notin> fst ` set st"
    unfolding x by auto
  have r: "\<exists>nd'. (m(v \<mapsto> nd ++ u)) w = Some nd' \<and> valid_update nd' u'"
    if in_st: "(w, u') \<in> set st" for w u'
  proof -
    from in_st nv have "w \<noteq> v" by force
    moreover from in_st have "(w, u') \<in> set (x # st)" by simp
    from Cons.prems(2) [OF this] obtain nd' where "m w = Some nd'" "valid_update nd' u'" by blast
    ultimately show ?thesis by simp
  qed
  from Cons.IH [of "m(v \<mapsto> nd ++ u)", OF d r] obtain m' where "update_nodes st (m(v \<mapsto> nd ++ u)) = (None, m')"
    by blast
  then show ?case unfolding x by (simp add: step)
qed

lemma update_state_succeeds:
  assumes d: "distinct (map fst st)"
    and ok: "\<And>v u. (v, u) \<in> set st \<Longrightarrow> \<exists>nd. node_data g v = Some nd \<and> valid_update nd u"
    and cover: "set (leaves g) \<subseteq> fst ` set st"
  shows "\<exists>g'. update_state st g = (None, g')"
proof -
  from update_nodes_succeeds [of st "node_data g", OF d ok] obtain m' where m': "update_nodes st (node_data g) = (None, m')"
    by blast
  from update_nodes_values [OF m' d]
  have vals: "\<forall>(n, u)\<in>set st. \<exists>old. node_data g n = Some old \<and> m' n = Some (old ++ u)" by simp
  have "has_derived m' l" if "l \<in> set (leaves g)" for l
  proof -
    from that cover obtain u where in_st: "(l, u) \<in> set st" by force
    with vals obtain old where o: "node_data g l = Some old" and n: "m' l = Some (old ++ u)" by auto
    from ok [OF in_st] o have "valid_update old u" by simp
    from valid_update_derived [OF this] have "(old ++ u) ''derived'' \<noteq> None"
      by (simp only: not_None_eq)
    then show ?thesis unfolding has_derived_def n option.case .
  qed
  then have "list_all (has_derived m') (leaves g)" by (simp add: list_all_iff)
  then show ?thesis
    by (simp add: update_state_def m' leaves_def Let_def)
qed

lemma eventTree_depends:
  "leaves g = leaves h \<Longrightarrow> events g = events h \<Longrightarrow> eventTree g = eventTree h"
  by (simp add: eventTree_def initial_builder_def)

lemma well_observed_leaf:
  assumes "well_observed g" "v \<in> set (leaves g)"
  obtains nd l where "node_data g v = Some nd" "nd ''lineages'' = Some l"
    "\<And>d a. nd ''derived'' = Some d \<Longrightarrow> nd ''ancestral'' = Some a \<Longrightarrow> l = d + a"
proof -
  from assms have "case node_data g v of
               None \<Rightarrow> False
             | Some nd \<Rightarrow>
                 (case nd ''lineages'' of
                    None \<Rightarrow> False
                  | Some l \<Rightarrow>
                      (case (nd ''derived'', nd ''ancestral'') of
                         (Some d, Some a) \<Rightarrow> l = d + a
                       | _ \<Rightarrow> True))"
    by (simp add: well_observed_def list_all_iff)
  then obtain nd l where nd: "node_data g v = Some nd" and l: "nd ''lineages'' = Some l"
    and c: "case (nd ''derived'', nd ''ancestral'') of (Some d, Some a) \<Rightarrow> l = d + a | _ \<Rightarrow> True"
    by (auto split: option.splits)
  have "l = d + a" if "nd ''derived'' = Some d" "nd ''ancestral'' = Some a" for d a
    using c that by simp
  with nd l show ?thesis by (rule that)
qed

lemma valid_boundary:
  assumes "nd ''lineages'' = Some l"
  shows "valid_update nd [''derived'' \<mapsto> 0, ''ancestral'' \<mapsto> l]"
    and "valid_update nd [''derived'' \<mapsto> l, ''ancestral'' \<mapsto> 0]"
    and "valid_update (nd ++ [''derived'' \<mapsto> 0, ''ancestral'' \<mapsto> l]) [''derived'' \<mapsto> l, ''ancestral'' \<mapsto> 0]"
  using assms by (simp_all add: valid_update_def)

lemma valid_restore:
  assumes "nd ''lineages'' = Some l" "nd ''ancestral'' = Some x" "nd ''derived'' = Some y"
    "l = y + x"
  shows "valid_update (nd ++ [''derived'' \<mapsto> 0, ''ancestral'' \<mapsto> l] ++ [''derived'' \<mapsto> l, ''ancestral'' \<mapsto> 0])
           [''ancestral'' \<mapsto> x, ''derived'' \<mapsto> y]"
  using assms by (simp add: valid_update_def)

lemma lineages_of_Some:
  "node_data g v = Some nd \<Longrightarrow> nd ''lineages'' = Some l \<Longrightarrow> lineages_of g v = Inr l"
  by (simp add: lineages_of_def)

lemma body_returns:
  assumes wo: "well_observed g" and tree: "eventTree g = Inr tree"
  shows "\<exists>ret g'. normalizing_constant_body sp g = (Inr ret, g')"
proof -
  let ?anc = "\<lambda>l::int. [''derived'' \<mapsto> 0, ''ancestral'' \<mapsto> l]"
  let ?der = "\<lambda>l::int. [''derived'' \<mapsto> l, ''ancestral'' \<mapsto> 0]"
  define lin where "lin = (\<lambda>v. case lineages_of g v of Inr l \<Rightarrow> l | Inl e \<Rightarrow> 0)"
  have leaf: "\<exists>nd. node_data g v = Some nd \<and> nd ''lineages'' = Some (lin v)
      \<and> (\<forall>d a. nd ''derived'' = Some d \<longrightarrow> nd ''ancestral'' = Some a \<longrightarrow> lin v = d + a)"
    if "v \<in> set (leaves g)" for v
  proof -
    from well_observed_leaf [OF wo that] obtain nd l where nd: "node_data g v = Some nd"
      and l: "nd ''lineages'' = Some l"
      and s: "\<And>d a. nd ''derived'' = Some d \<Longrightarrow> nd ''ancestral'' = Some a \<Longrightarrow> l = d + a"
      by metis
    have "lin v = l" by (simp add: lin_def lineages_of_Some [of g v nd l, OF nd l])
    with nd l s show ?thesis by simp
  qed
  define st0 where "st0 = map (\<lambda>v. (v, ?anc (lin v))) (leaves g)"
  define st1 where "st1 = map (\<lambda>v. (v, ?der (lin v))) (leaves g)"
  have k0: "map fst st0 = leaves g" and k1: "map fst st1 = leaves g"
    by (simp_all add: st0_def st1_def comp_def)
  have c0: "fst ` set st0 = set (leaves g)" and c1: "fst ` set st1 = set (leaves g)"
    by (simp_all add: st0_def st1_def image_comp comp_def)
  have s0: "all_ancestral g = Inr st0"
    unfolding all_ancestral_def st0_def
  proof (rule collect_map_Inr)
    fix v assume "v \<in> set (leaves g)"
    from leaf [OF this] obtain nd where "node_data g v = Some nd" "nd ''lineages'' = Some (lin v)"
      by metis
    then have "lineages_of g v = Inr (lin v)" by (simp add: lineages_of_def)
    then show "(case lineages_of g v of Inl e \<Rightarrow> Inl e | Inr l \<Rightarrow> Inr (v, ?anc l))
        = Inr (v, ?anc (lin v))" by simp
  qed
  have "\<exists>g1. update_state st0 g = (None, g1)"
  proof (rule update_state_succeeds)
    show "distinct (map fst st0)" by (simp only: k0 distinct_leaves)
    show "set (leaves g) \<subseteq> fst ` set st0" by (simp only: c0 subset_refl)
    fix v u assume "(v, u) \<in> set st0"
    then have v: "v \<in> set (leaves g)" and u: "u = ?anc (lin v)" by (auto simp: st0_def)
    from leaf [OF v] obtain nd where nd: "node_data g v = Some nd"
      and l: "nd ''lineages'' = Some (lin v)" by metis
    from valid_boundary(1) [of nd "lin v", OF l] nd
    show "\<exists>nd. node_data g v = Some nd \<and> valid_update nd u" unfolding u by simp
  qed
  then obtain g1 where u0: "update_state st0 g = (None, g1)" by metis
  note f1 = update_state_frame [OF u0]
  have d0: "distinct (map fst st0)" by (simp only: k0 distinct_leaves)
  note v0 = update_state_values [OF u0 d0]
  have t1: "eventTree g1 = Inr tree" using eventTree_depends [of g1 g] f1 tree by simp
  have leaf1: "\<exists>nd. node_data g v = Some nd \<and> nd ''lineages'' = Some (lin v)
        \<and> node_data g1 v = Some (nd ++ ?anc (lin v))" if v: "v \<in> set (leaves g)" for v
  proof -
    from leaf [OF v] obtain nd where nd: "node_data g v = Some nd"
      and l: "nd ''lineages'' = Some (lin v)" by metis
    from v have "(v, ?anc (lin v)) \<in> set st0" by (auto simp: st0_def)
    with v0 have "\<exists>old. node_data g v = Some old \<and> node_data g1 v = Some (old ++ ?anc (lin v))"
      by fast
    with nd have "node_data g1 v = Some (nd ++ ?anc (lin v))" by simp
    with nd l show ?thesis by simp
  qed
  have s1: "all_derived g1 = Inr st1"
    unfolding all_derived_def st1_def
  proof -
    have "collect (map (\<lambda>v. case lineages_of g1 v of Inl e \<Rightarrow> Inl e | Inr l \<Rightarrow> Inr (v, ?der l))
             (leaves g)) = Inr (map (\<lambda>v. (v, ?der (lin v))) (leaves g))"
    proof (rule collect_map_Inr)
      fix v assume "v \<in> set (leaves g)"
      from leaf1 [OF this] obtain nd where l: "nd ''lineages'' = Some (lin v)"
        and n1: "node_data g1 v = Some (nd ++ ?anc (lin v))" by metis
      have "(nd ++ ?anc (lin v)) ''lineages'' = Some (lin v)" using l by simp
      from lineages_of_Some [of g1 v _ "lin v", OF n1 this]
      show "(case lineages_of g1 v of Inl e \<Rightarrow> Inl e | Inr l \<Rightarrow> Inr (v, ?der l))
          = Inr (v, ?der (lin v))" by simp
    qed
    then show "collect (map (\<lambda>v. case lineages_of g1 v of Inl e \<Rightarrow> Inl e | Inr l \<Rightarrow> Inr (v, ?der l))
             (leaves g1)) = Inr (map (\<lambda>v. (v, ?der (lin v))) (leaves g))"
      using f1 by simp
  qed
  have "\<exists>g2. update_state st1 g1 = (None, g2)"
  proof (rule update_state_succeeds)
    show "distinct (map fst st1)" by (simp only: k1 distinct_leaves)
    show "set (leaves g1) \<subseteq> fst ` set st1" using f1 by (simp only: c1 subset_refl)
    fix v u assume "(v, u) \<in> set st1"
    then have v: "v \<in> set (leaves g)" and u: "u = ?der (lin v)" by (auto simp: st1_def)
    from leaf1 [OF v] obtain nd where l: "nd ''lineages'' = Some (lin v)"
      and n1: "node_data g1 v = Some (nd ++ ?anc (lin v))" by metis
    from valid_boundary(3) [of nd "lin v", OF l] n1
    show "\<exists>nd. node_data g1 v = Some nd \<and> valid_update nd u" unfolding u by simp
  qed
  then obtain g2 where u1: "update_state st1 g1 = (None, g2)" by metis
  note f2 = update_state_frame [OF u1]
  have d1: "distinct (map fst st1)" by (simp only: k1 distinct_leaves)
  note v1 = update_state_values [OF u1 d1]
  show ?thesis
  proof (cases "prev_state_of g")
    case None
    then show ?thesis
      by (simp add: normalizing_constant_body_def s0 u0 t1 s1 u1 Let_def)
  next
    case (Some ps)
    from gather_entries [OF Some [unfolded prev_state_of_def]]
    have k2: "map fst ps = leaves g"
      and e2: "\<forall>(v, a)\<in>set ps. leaf_observation g v = Some a" by auto
    have c2: "fst ` set ps = set (leaves g)" using k2 by (metis set_map)
    have "\<exists>g3. update_state ps g2 = (None, g3)"
    proof (rule update_state_succeeds)
      show "distinct (map fst ps)" by (simp only: k2 distinct_leaves)
      show "set (leaves g2) \<subseteq> fst ` set ps" using f1 f2 by (simp only: c2 subset_refl)
      fix v u assume in_ps: "(v, u) \<in> set ps"
      then have v: "v \<in> set (leaves g)" using c2 by force
      from leaf [OF v] obtain nd where nd: "node_data g v = Some nd"
        and l: "nd ''lineages'' = Some (lin v)"
        and sum: "\<forall>d a. nd ''derived'' = Some d \<longrightarrow> nd ''ancestral'' = Some a \<longrightarrow> lin v = d + a"
        by metis
      from e2 in_ps have "leaf_observation g v = Some u" by fast
      with nd obtain x y where x: "nd ''ancestral'' = Some x" and y: "nd ''derived'' = Some y"
        and u: "u = [''ancestral'' \<mapsto> x, ''derived'' \<mapsto> y]"
        by (auto simp: leaf_observation_def split: option.splits)
      from leaf1 [OF v] nd have n1: "node_data g1 v = Some (nd ++ ?anc (lin v))" by simp
      from v have "(v, ?der (lin v)) \<in> set st1" by (auto simp: st1_def)
      with v1 have "\<exists>old. node_data g1 v = Some old \<and> node_data g2 v = Some (old ++ ?der (lin v))"
        by fast
      with n1 have n2: "node_data g2 v = Some (nd ++ ?anc (lin v) ++ ?der (lin v))" by simp
      from sum x y have "lin v = y + x" by simp
      from valid_restore [of nd "lin v" x y, OF l x y this] n2
      show "\<exists>nd. node_data g2 v = Some nd \<and> valid_update nd u" unfolding u by simp
    qed
    then obtain g3 where u2: "update_state ps g2 = (None, g3)" by metis
    show ?thesis
      by (simp add: normalizing_constant_body_def s0 u0 t1 s1 u1 Some u2 Let_def)
  qed
qed

text \<open>Evaluation of the whole computation on the example graphs.\<close>

lemmas nc_eval = normalizing_constant_def normalizing_constant_body_def prev_state_of_def
  leaf_observation_def all_ancestral_def all_derived_def lineages_of_def update_state_def
  update_node_def has_derived_def leaves_def eventTree_def initial_builder_def
  process_event_def lookup_def branch_sum_def Let_def

lemma two_leaf_value: "fst (normalizing_constant unit_engine two_leaf_graph) = Inr 3"
  by (simp add: nc_eval two_leaf_graph_def unit_engine_def)

lemma two_leaf_eventTree: "eventTree two_leaf_graph = Inr two_leaf_tree"
  by (simp add: nc_eval two_leaf_graph_def two_leaf_tree_def)

lemma two_leaf_well_observed: "well_observed two_leaf_graph"
  by (simp add: well_observed_def leaves_def two_leaf_graph_def)

lemma observed_value: "fst (normalizing_constant unit_engine observed_graph) = Inr 3"
  by (simp add: nc_eval two_leaf_graph_def observed_graph_def unit_engine_def)

lemma observed_leaves: "leaves observed_graph = [''a'', ''b'']"
  by (simp add: leaves_def two_leaf_graph_def observed_graph_def)

text \<open>
  Claim C8, as the code has it. When \<^verbatim>\<open>normalizing_constant\<close> returns and every leaf had
  both \<^verbatim>\<open>'derived'\<close> and \<^verbatim>\<open>'ancestral'\<close> set on entry, the node data are exactly those
  on entry. When some leaf lacked one of them, nothing was saved and nothing is restored:
  every leaf is left in the all-derived state. In both cases no node other than a leaf and
  no other attribute of the graph changes.
\<close>

theorem normalizing_constant_restores_state:
  assumes "normalizing_constant sp g = (Inr r, g')"
  shows "((\<forall>v\<in>set (leaves g). leaf_observation g v \<noteq> None) \<longrightarrow> node_data g' = node_data g)
       \<and> ((\<exists>v\<in>set (leaves g). leaf_observation g v = None) \<longrightarrow>
            (\<forall>v\<in>set (leaves g). \<exists>nd l. node_data g v = Some nd \<and> nd ''lineages'' = Some l
                \<and> node_data g' v = Some (nd ++ [''derived'' \<mapsto> l, ''ancestral'' \<mapsto> 0])))
       \<and> (\<forall>v. v \<notin> set (leaves g) \<longrightarrow> node_data g' v = node_data g v)
       \<and> nodes g' = nodes g \<and> edges g' = edges g \<and> splitprobs g' = splitprobs g
       \<and> events g' = events g \<and> totalSfsSum_cache g' = totalSfsSum_cache g"
  using assms body_state [of sp g r g'] by (simp add: normalizing_constant_Inr)

theorem normalizing_constant_restores_state_witness:
  "normalizing_constant unit_engine observed_graph
     = (Inr 3, snd (normalizing_constant unit_engine observed_graph))
   \<and> leaves observed_graph = [''a'', ''b'']
   \<and> leaf_observation observed_graph ''a'' \<noteq> None
   \<and> leaf_observation observed_graph ''b'' \<noteq> None
   \<and> node_data (snd (normalizing_constant unit_engine observed_graph)) = node_data observed_graph"
proof -
  have v: "normalizing_constant unit_engine observed_graph
     = (Inr 3, snd (normalizing_constant unit_engine observed_graph))"
    using observed_value by (metis prod.collapse)
  have ab: "leaf_observation observed_graph ''a'' \<noteq> None"
    "leaf_observation observed_graph ''b'' \<noteq> None"
    by (simp_all add: leaf_observation_def observed_graph_def two_leaf_graph_def)
  then have o: "\<forall>v\<in>set (leaves observed_graph). leaf_observation observed_graph v \<noteq> None"
    by (simp add: observed_leaves)
  from normalizing_constant_restores_state [OF v] o v ab observed_leaves show ?thesis by simp
qed

text \<open>
  Claim C8 as stated fails: leaf \<open>a\<close> enters with one derived and one ancestral lineage,
  leaf \<open>b\<close> with no observation; the call returns \<open>3\<close> and leaves \<open>a\<close> with two derived
  lineages and no ancestral one.
\<close>

theorem normalizing_constant_state_lost:
  "fst (normalizing_constant unit_engine half_observed_graph) = Inr 3
   \<and> leaf_observation half_observed_graph ''a'' = Some [''ancestral'' \<mapsto> 1, ''derived'' \<mapsto> 1]
   \<and> leaf_observation (snd (normalizing_constant unit_engine half_observed_graph)) ''a''
       = Some [''ancestral'' \<mapsto> 0, ''derived'' \<mapsto> 2]"
  by (simp add: nc_eval two_leaf_graph_def half_observed_graph_def unit_engine_def)

section \<open>Properties of the Poisson random field likelihood\<close>

lemma same_but_observation_refl: "same_but_observation g g"
  by (simp add: same_but_observation_def option.rel_refl)

lemma same_leaves: "same_but_observation g h \<Longrightarrow> leaves g = leaves h"
  by (simp add: same_but_observation_def leaves_def)

lemma same_lineages:
  assumes "same_but_observation g h"
  shows "lineages_of g v = lineages_of h v"
proof -
  from assms have "rel_option (\<lambda>a b. \<forall>k. k \<noteq> ''derived'' \<longrightarrow> k \<noteq> ''ancestral'' \<longrightarrow> a k = b k)
              (node_data g v) (node_data h v)"
    by (simp add: same_but_observation_def)
  then show ?thesis
    by (cases "node_data g v"; cases "node_data h v") (simp_all add: lineages_of_def)
qed

lemma dfs_loop_cong:
  assumes "successors g = successors h"
  shows "dfs_loop g stack visited post = dfs_loop h stack visited post"
  using assms by (induction g stack visited post rule: dfs_loop.induct) simp_all

lemma n_lin_fill_cong:
  assumes "leaves g = leaves h" "lineages_of g = lineages_of h" "successors g = successors h"
  shows "n_lin_fill g vs d = n_lin_fill h vs d"
  using assms by (induction vs arbitrary: d) (simp_all split: sum.splits)

lemma n_lineages_at_node_cong:
  assumes "same_but_observation g h"
  shows "n_lineages_at_node g = n_lineages_at_node h"
proof -
  have r: "root_of g = root_of h" and s: "successors g = successors h"
    using assms by (simp_all add: same_but_observation_def root_of_def successors_def fun_eq_iff)
  have l: "lineages_of g = lineages_of h" using same_lineages [OF assms] by (rule ext)
  have d: "dfs_postorder_nodes g = dfs_postorder_nodes h"
    by (rule ext) (simp add: dfs_postorder_nodes_def s dfs_loop_cong [OF s])
  have f: "n_lin_fill g = n_lin_fill h"
    by (intro ext) (rule n_lin_fill_cong [OF same_leaves [OF assms] l s])
  show ?thesis unfolding n_lineages_at_node_def r d f by (rule refl)
qed

lemma config_state_cong:
  assumes "same_but_observation g h"
  shows "config_state g lvs c = config_state h lvs c"
  by (simp add: config_state_def n_lineages_at_node_cong [OF assms])

lemma update_state_None:
  assumes "update_state st g = (None, g')"
  obtains nd' where "update_nodes st (node_data g) = (None, nd')"
    "g' = g\<lparr>node_data := nd', n_derived_cached := False\<rparr>"
  using assms
  by (auto simp: update_state_def Let_def split: prod.splits option.splits if_splits)

lemma update_state_observe:
  assumes u: "update_state st g = (None, g')" and d: "distinct (map fst st)"
  shows "g' = observe g st"
proof -
  from u obtain nd' where n: "update_nodes st (node_data g) = (None, nd')"
    and g': "g' = g\<lparr>node_data := nd', n_derived_cached := False\<rparr>"
    by (rule update_state_None)
  from update_nodes_values [OF n d]
  have v1: "\<forall>(n, u)\<in>set st. \<exists>old. node_data g n = Some old \<and> nd' n = Some (old ++ u)"
    and v2: "\<forall>n. n \<notin> fst ` set st \<longrightarrow> nd' n = node_data g n" by simp_all
  have "nd' v = (case map_of st v of
                None \<Rightarrow> node_data g v
              | Some u \<Rightarrow> map_option (\<lambda>nd. nd ++ u) (node_data g v))" for v
  proof (cases "map_of st v")
    case None
    then have "v \<notin> fst ` set st" by (simp add: map_of_eq_None_iff)
    with v2 None show ?thesis by simp
  next
    case (Some u)
    then have "(v, u) \<in> set st" by (rule map_of_SomeD)
    with v1 obtain old where "node_data g v = Some old" "nd' v = Some (old ++ u)" by fast
    with Some show ?thesis by simp
  qed
  then have "nd' = (\<lambda>v. case map_of st v of
                None \<Rightarrow> node_data g v
              | Some u \<Rightarrow> map_option (\<lambda>nd. nd ++ u) (node_data g v))" by (rule ext)
  then show ?thesis by (simp add: g' observe_def)
qed

text \<open>A state that sets exactly the two observation attributes at exactly the leaves.\<close>

lemma observe_same:
  assumes s: "same_but_observation g h"
    and keys: "fst ` set st = set (leaves h)"
    and doms: "\<And>v u. (v, u) \<in> set st \<Longrightarrow> dom u = {''derived'', ''ancestral''}"
  shows "observe g st = observe h st"
proof -
  have "(case map_of st v of None \<Rightarrow> node_data g v
          | Some u \<Rightarrow> map_option (\<lambda>nd. nd ++ u) (node_data g v))
      = (case map_of st v of None \<Rightarrow> node_data h v
          | Some u \<Rightarrow> map_option (\<lambda>nd. nd ++ u) (node_data h v))" for v
  proof (cases "map_of st v")
    case None
    then have "v \<notin> set (leaves h)" using keys by (simp add: map_of_eq_None_iff)
    with s None show ?thesis by (simp add: same_but_observation_def)
  next
    case (Some u)
    then have "(v, u) \<in> set st" by (rule map_of_SomeD)
    from doms [OF this] have du: "dom u = {''derived'', ''ancestral''}" .
    from s have r: "rel_option (\<lambda>a b. \<forall>k. k \<noteq> ''derived'' \<longrightarrow> k \<noteq> ''ancestral'' \<longrightarrow> a k = b k)
              (node_data g v) (node_data h v)"
      by (simp add: same_but_observation_def)
    have "a ++ u = b ++ u" if "\<forall>k. k \<noteq> ''derived'' \<longrightarrow> k \<noteq> ''ancestral'' \<longrightarrow> a k = b k" for a b :: attrs
    proof (rule ext)
      fix k
      show "(a ++ u) k = (b ++ u) k"
      proof (cases "k \<in> dom u")
        case True
        then obtain y where "u k = Some y" by blast
        then show ?thesis by (simp add: map_add_def)
      next
        case False
        with du that have "a k = b k" by auto
        with False show ?thesis by (simp add: map_add_def domIff)
      qed
    qed
    with r have "map_option (\<lambda>nd. nd ++ u) (node_data g v) = map_option (\<lambda>nd. nd ++ u) (node_data h v)"
      by (cases "node_data g v"; cases "node_data h v") simp_all
    with Some show ?thesis by simp
  qed
  then have "(\<lambda>v. case map_of st v of None \<Rightarrow> node_data g v
          | Some u \<Rightarrow> map_option (\<lambda>nd. nd ++ u) (node_data g v))
      = (\<lambda>v. case map_of st v of None \<Rightarrow> node_data h v
          | Some u \<Rightarrow> map_option (\<lambda>nd. nd ++ u) (node_data h v))" by (rule ext)
  moreover from s have "g\<lparr>node_data := X, n_derived_cached := False\<rparr>
      = h\<lparr>node_data := X, n_derived_cached := False\<rparr>" for X
    by (simp add: same_but_observation_def demography.equality)
  ultimately show ?thesis by (simp add: observe_def)
qed

lemma observe_similar:
  assumes keys: "fst ` set st = set (leaves h)"
    and doms: "\<And>v u. (v, u) \<in> set st \<Longrightarrow> dom u = {''derived'', ''ancestral''}"
  shows "same_but_observation (observe h st) h"
proof -
  have a: "node_data (observe h st) v = node_data h v" if "v \<notin> set (leaves h)" for v
  proof -
    from that keys have "map_of st v = None" by (simp add: map_of_eq_None_iff)
    then show ?thesis by (simp add: observe_def)
  qed
  have b: "rel_option (\<lambda>a b. \<forall>k. k \<noteq> ''derived'' \<longrightarrow> k \<noteq> ''ancestral'' \<longrightarrow> a k = b k)
              (node_data (observe h st) v) (node_data h v)" for v
  proof (cases "map_of st v")
    case None
    then show ?thesis by (simp add: observe_def option.rel_refl)
  next
    case (Some u)
    then have "(v, u) \<in> set st" by (rule map_of_SomeD)
    from doms [OF this] have du: "dom u = {''derived'', ''ancestral''}" .
    have "(nd ++ u) k = nd k" if "k \<noteq> ''derived''" "k \<noteq> ''ancestral''" for nd :: attrs and k
    proof -
      from that du have "k \<notin> dom u" by simp
      then show ?thesis by (simp add: map_add_def domIff)
    qed
    then show ?thesis
      using Some by (cases "node_data h v") (simp_all add: observe_def)
  qed
  show ?thesis
    unfolding same_but_observation_def using a b by (simp add: observe_def)
qed

lemma dom_observation: "dom [''derived'' \<mapsto> b, ''ancestral'' \<mapsto> (x::int)] = {''derived'', ''ancestral''}"
  by (simp add: insert_commute)

lemma config_state_entries:
  assumes "config_state g lvs c = Inr st"
  shows "map fst st = map fst (zip lvs c)"
    and "\<And>v u. (v, u) \<in> set st \<Longrightarrow> dom u = {''derived'', ''ancestral''}"
proof -
  let ?f = "\<lambda>ab. case n_lineages_at_node g (fst ab) of
                               Inl e \<Rightarrow> Inl e
                             | Inr n \<Rightarrow> Inr (fst ab, [''derived'' \<mapsto> snd ab, ''ancestral'' \<mapsto> n - snd ab])"
  have *: "collect (map ?f zs) = Inr st
        \<Longrightarrow> map fst st = map fst zs
            \<and> (\<forall>vu\<in>set st. dom (snd vu) = {''derived'', ''ancestral''})" for zs
  proof (induction zs arbitrary: st)
    case Nil
    then show ?case by simp
  next
    case (Cons z zs)
    from Cons.prems obtain n rest where n: "n_lineages_at_node g (fst z) = Inr n"
      and rest: "collect (map ?f zs) = Inr rest"
      and st: "st = (fst z, [''derived'' \<mapsto> snd z, ''ancestral'' \<mapsto> n - snd z]) # rest"
      by (auto split: sum.splits)
    from Cons.IH [OF rest] show ?case
      unfolding st by (simp add: dom_observation del: dom_fun_upd fun_upd_apply)
  qed
  have "config_state g lvs c = collect (map ?f (zip lvs c))"
    by (simp add: config_state_def split_def)
  with assms have "collect (map ?f (zip lvs c)) = Inr st" by simp
  from * [OF this] have a: "map fst st = map fst (zip lvs c)"
    and b: "\<forall>vu\<in>set st. dom (snd vu) = {''derived'', ''ancestral''}"
    by (rule conjunct1, rule conjunct2)
  from a show "map fst st = map fst (zip lvs c)" .
  show "dom u = {''derived'', ''ancestral''}" if "(v, u) \<in> set st" for v u
    using bspec [OF b that] by (simp only: snd_conv)
qed

lemma prf_loop_value:
  assumes "prf_loop sp theta lvs cws g ret = (Inr r, g')"
    and "same_but_observation g g0"
    and "distinct lvs" and "set lvs = set (leaves g0)"
    and "\<forall>cw\<in>set cws. length (fst cw) = length lvs"
  shows "r = ret + sum_list (map (\<lambda>(c, w). ln (p sp (with_config g0 lvs c) * theta / 2) * real w - ln (real (fact w))) cws)
       \<and> (\<forall>cw\<in>set cws. 0 < p sp (with_config g0 lvs (fst cw)) * theta / 2)"
  using assms
proof (induction cws arbitrary: g ret)
  case Nil
  then show ?case by simp
next
  case (Cons cw cws)
  obtain c w where cw: "cw = (c, w)" by (cases cw)
  from Cons.prems(1) obtain st where st: "config_state g lvs c = Inr st"
    by (cases "config_state g lvs c") (simp_all add: cw)
  from Cons.prems(1) st obtain g1 where g1: "update_state st g = (None, g1)"
    by (cases "update_state st g"; cases "fst (update_state st g)") (simp_all add: cw)
  let ?x = "p sp g1 * theta / 2"
  from Cons.prems(1) st g1 have pos: "0 < ?x"
    by (cases "?x \<le> 0") (simp_all add: cw Let_def)
  with Cons.prems(1) st g1
  have rest: "prf_loop sp theta lvs cws g1 (ret + ln ?x * real w - ln (real (fact w))) = (Inr r, g')"
    by (simp add: cw Let_def)
  from st have st0: "config_state g0 lvs c = Inr st"
    by (simp add: config_state_cong [OF Cons.prems(2)])
  from Cons.prems(5) have len: "length c = length lvs" by (simp add: cw)
  from config_state_entries(1) [OF st] len have keys: "map fst st = lvs" by simp
  have doms: "\<And>v u. (v, u) \<in> set st \<Longrightarrow> dom u = {''derived'', ''ancestral''}"
    by (rule config_state_entries(2) [OF st])
  from keys Cons.prems(4) have ks: "fst ` set st = set (leaves g0)"
    by (metis set_map)
  from keys Cons.prems(3) have "distinct (map fst st)" by simp
  from update_state_observe [OF g1 this] have "g1 = observe g st" .
  also have "\<dots> = observe g0 st" using Cons.prems(2) ks doms by (rule observe_same)
  finally have g1_eq: "g1 = with_config g0 lvs c" by (simp add: with_config_def st0)
  have "same_but_observation (observe g0 st) g0" using ks doms by (rule observe_similar)
  then have sim: "same_but_observation g1 g0" by (simp add: g1_eq with_config_def st0)
  from Cons.prems(5) have lens: "\<forall>cw\<in>set cws. length (fst cw) = length lvs" by simp
  from Cons.IH [OF rest sim Cons.prems(3) Cons.prems(4) lens] pos
  show ?case by (simp add: cw g1_eq)
qed

lemma log_likelihood_prf_cases:
  assumes "log_likelihood_prf sp theta sfs_items g = (Inr r, g')"
  obtains z g0 where "totalSfsSum sp g = (Inr z, g0)"
    and "prf_loop sp theta (sort (leaves g0)) (sort sfs_items) g0 (- z * theta / 2) = (Inr r, g')"
    and "r < 0"
  using assms
  by (auto simp: log_likelihood_prf_def split: prod.splits sum.splits if_splits)

lemma totalSfsSum_leaves:
  assumes "totalSfsSum sp g = (Inr z, g0)"
  shows "leaves g0 = leaves g"
proof (cases "totalSfsSum_cache g")
  case (Some c)
  with assms show ?thesis by (simp add: totalSfsSum_def)
next
  case None
  with assms obtain g1 where n: "normalizing_constant sp g = (Inr z, g1)"
    and g0: "g0 = g1\<lparr>totalSfsSum_cache := Some z\<rparr>"
    by (auto simp: totalSfsSum_def split: prod.splits sum.splits)
  from n have "normalizing_constant_body sp g = (Inr z, g1)"
    by (simp add: normalizing_constant_Inr)
  from body_state [OF this] have "nodes g1 = nodes g" "edges g1 = edges g" by simp_all
  then show ?thesis by (simp add: g0 leaves_def)
qed

lemma two_leaf_leaves: "leaves two_leaf_graph = [''a'', ''b'']"
  by (simp add: leaves_def two_leaf_graph_def)

lemma sorted_ab: "sort [''a'', ''b''] = [''a'', ''b'']"
  by simp

lemma two_leaf_total: "fst (totalSfsSum half_engine two_leaf_graph) = Inr (5 / 2)"
  by (simp add: totalSfsSum_def nc_eval two_leaf_graph_def half_engine_def split: prod.splits)

lemma two_leaf_likelihood:
  "fst (log_likelihood_prf half_engine 1 [([1, 0], 1)] two_leaf_graph) = Inr (ln (1 / 4) - 5 / 4)"
proof -
  have "ln (1 / 4 :: real) < 0" by (rule ln_less_zero) simp_all
  then have n: "ln (1 / 4 :: real) < 5 / 4" by linarith
  show ?thesis
    using n
    by (simp add: log_likelihood_prf_def totalSfsSum_def nc_eval config_state_def
          n_lineages_at_node_def root_of_def dfs_postorder_nodes_def successors_def
          two_leaf_graph_def half_engine_def split: prod.splits)
qed

text \<open>
  Claim C2. Whatever \<^verbatim>\<open>log_likelihood_prf(theta, sfs)\<close> returns is
  \<open>- Z * theta / 2\<close>, with \<open>Z\<close> the value of \<^verbatim>\<open>totalSfsSum\<close> (the normalizing constant),
  plus the sum over the configurations of \<open>ln (p config * theta / 2) * weight - ln (weight!)\<close>,
  where \<open>p config\<close> is the unnormalized probability of the engine on the graph whose leaves
  are set to the configuration (every configuration has one count per leaf); each logarithm
  is taken of a positive number, and the value is strictly negative. The sign is asserted
  before the return: a value of the loop that is not negative raises AssertionError.
\<close>

theorem log_likelihood_prf_value:
  assumes "\<forall>cw\<in>set sfs_items. length (fst cw) = length (leaves g)"
  shows "(log_likelihood_prf sp theta sfs_items g = (Inr r, g') \<longrightarrow>
           (\<exists>z g0. totalSfsSum sp g = (Inr z, g0)
              \<and> r = - z * theta / 2
                    + sum_list (map (\<lambda>(c, w). ln (p sp (with_config g0 (sort (leaves g)) c) * theta / 2) * real w
                                              - ln (real (fact w)))
                         (sort sfs_items))
              \<and> (\<forall>cw\<in>set sfs_items. 0 < p sp (with_config g0 (sort (leaves g)) (fst cw)) * theta / 2)
              \<and> r < 0))
       \<and> (totalSfsSum sp g = (Inr z1, g1) \<longrightarrow>
            prf_loop sp theta (sort (leaves g1)) (sort sfs_items) g1 (- z1 * theta / 2) = (Inr ret, g2) \<longrightarrow>
            log_likelihood_prf sp theta sfs_items g
              = (if ret < 0 then (Inr ret, g2) else (Inl AssertionError, g2)))"
proof (intro conjI impI)
  assume "log_likelihood_prf sp theta sfs_items g = (Inr r, g')"
  then obtain z g0 where z: "totalSfsSum sp g = (Inr z, g0)"
    and l: "prf_loop sp theta (sort (leaves g0)) (sort sfs_items) g0 (- z * theta / 2) = (Inr r, g')"
    and neg: "r < 0"
    by (rule log_likelihood_prf_cases)
  have lv: "leaves g0 = leaves g" using z by (rule totalSfsSum_leaves)
  have "r = - z * theta / 2
            + sum_list (map (\<lambda>(c, w). ln (p sp (with_config g0 (sort (leaves g0)) c) * theta / 2) * real w
                                      - ln (real (fact w)))
                 (sort sfs_items))
        \<and> (\<forall>cw\<in>set (sort sfs_items). 0 < p sp (with_config g0 (sort (leaves g0)) (fst cw)) * theta / 2)"
    using assms by (intro prf_loop_value [OF l same_but_observation_refl]) (simp_all add: distinct_leaves lv)
  with z neg lv
  show "\<exists>z g0. totalSfsSum sp g = (Inr z, g0)
              \<and> r = - z * theta / 2
                    + sum_list (map (\<lambda>(c, w). ln (p sp (with_config g0 (sort (leaves g)) c) * theta / 2) * real w
                                              - ln (real (fact w)))
                         (sort sfs_items))
              \<and> (\<forall>cw\<in>set sfs_items. 0 < p sp (with_config g0 (sort (leaves g)) (fst cw)) * theta / 2)
              \<and> r < 0"
    by simp
next
  assume "totalSfsSum sp g = (Inr z1, g1)"
    and "prf_loop sp theta (sort (leaves g1)) (sort sfs_items) g1 (- z1 * theta / 2) = (Inr ret, g2)"
  then show "log_likelihood_prf sp theta sfs_items g
              = (if ret < 0 then (Inr ret, g2) else (Inl AssertionError, g2))"
    by (simp add: log_likelihood_prf_def)
qed

theorem log_likelihood_prf_value_witness:
  "length (fst ([1, 0 :: int], 1 :: nat)) = length (leaves two_leaf_graph)
   \<and> log_likelihood_prf half_engine 1 [([1, 0], 1)] two_leaf_graph
       = (Inr (ln (1 / 4) - 5 / 4), snd (log_likelihood_prf half_engine 1 [([1, 0], 1)] two_leaf_graph))
   \<and> (\<exists>z g0. totalSfsSum half_engine two_leaf_graph = (Inr z, g0)
         \<and> ln (1 / 4) - 5 / 4
             = - z * 1 / 2
               + sum_list (map (\<lambda>(c, w). ln (p half_engine (with_config g0 (sort (leaves two_leaf_graph)) c) * 1 / 2)
                                           * real w - ln (real (fact w)))
                    (sort [([1, 0 :: int], 1 :: nat)]))
         \<and> (\<forall>cw\<in>set [([1, 0 :: int], 1 :: nat)].
                0 < p half_engine (with_config g0 (sort (leaves two_leaf_graph)) (fst cw)) * 1 / 2)
         \<and> ln (1 / 4) - 5 / 4 < (0 :: real))"
proof -
  have v: "log_likelihood_prf half_engine 1 [([1, 0], 1)] two_leaf_graph
       = (Inr (ln (1 / 4) - 5 / 4), snd (log_likelihood_prf half_engine 1 [([1, 0], 1)] two_leaf_graph))"
    using two_leaf_likelihood by (metis prod.collapse)
  have n: "length (fst ([1, 0 :: int], 1 :: nat)) = length (leaves two_leaf_graph)"
    by (simp add: two_leaf_leaves)
  then have l: "\<forall>cw\<in>set [([1, 0 :: int], 1 :: nat)]. length (fst cw) = length (leaves two_leaf_graph)"
    by simp
  from n v log_likelihood_prf_value [OF l, THEN conjunct1, THEN mp, OF v]
  show ?thesis by (intro conjI)
qed

section \<open>Properties of the event tree\<close>

lemma map_of_fold_update:
  "map_of (fold (\<lambda>p. AList.update p v) ps al) q = (if q \<in> set ps then Some v else map_of al q)"
  by (induction ps arbitrary: al) (simp_all add: update_conv')

lemma map_of_fold_delete:
  "map_of (fold AList.delete ps al) q = (if q \<in> set ps then None else map_of al q)"
  by (induction ps arbitrary: al) (simp_all add: delete_conv')

lemma distinct_fold_update:
  "distinct (map fst al) \<Longrightarrow> distinct (map fst (fold (\<lambda>p. AList.update p v) ps al))"
  by (induction ps arbitrary: al) (simp_all add: distinct_update)

lemma distinct_fold_delete:
  "distinct (map fst al) \<Longrightarrow> distinct (map fst (fold AList.delete ps al))"
  by (induction ps arbitrary: al) (simp_all add: distinct_delete)

lemma collect_lookup:
  "collect (map (lookup al) ks) = Inr vs \<Longrightarrow> list_all2 (\<lambda>k v. map_of al k = Some v) ks vs"
  by (induction ks arbitrary: vs) (auto simp: lookup_def split: option.splits sum.splits)

lemma collect_lookup_set:
  assumes "collect (map (lookup al) ks) = Inr vs"
  shows "set vs = {v. \<exists>k\<in>set ks. map_of al k = Some v}" and "\<forall>k\<in>set ks. map_of al k \<noteq> None"
proof -
  from assms have l: "list_all2 (\<lambda>k v. map_of al k = Some v) ks vs" by (rule collect_lookup)
  then show "set vs = {v. \<exists>k\<in>set ks. map_of al k = Some v}"
    by (induction rule: list_all2_induct) auto
  from l show "\<forall>k\<in>set ks. map_of al k \<noteq> None"
    by (induction rule: list_all2_induct) auto
qed

lemma process_event_cases:
  assumes "process_event e b = Inr b'"
  obtains owners child_attrs where
    "e \<noteq> []"
    "collect (map (lookup (currEvents b)) (remdups (map snd e))) = Inr owners"
    "collect (map (lookup (eventDict b)) (remdups owners)) = Inr child_attrs"
    "length e = 2" "role_count e = 3" "length (remdups owners) = 1 \<or> length (remdups owners) = 2"
    "b' = \<lparr>currEvents =
             fold AList.delete (remdups (map snd e))
               (fold (\<lambda>p. AList.update p (RawEvent e))
                  (remdups ([p \<leftarrow> concat (map subpops child_attrs). p \<notin> set (remdups (map snd e))]
                            @ remdups (map fst e)))
                  (currEvents b)),
           eventDict =
             AList.update (RawEvent e)
               \<lparr>subpops = remdups ([p \<leftarrow> concat (map subpops child_attrs). p \<notin> set (remdups (map snd e))]
                                   @ remdups (map fst e)),
                parent_pops = remdups (map fst e),
                child_pops = zip (remdups (map snd e)) owners\<rparr>
               (eventDict b),
           eventEdgeList = eventEdgeList b @ map (\<lambda>c. (RawEvent e, c)) (remdups owners)\<rparr>"
  using assms unfolding process_event_def Let_def role_count_def
  by (auto split: if_splits sum.splits)

lemma process_event_inv:
  assumes inv: "builder_inv seen b" and pe: "process_event e b = Inr b'"
    and fresh: "set (map fst e) \<inter> set seen = {}"
  shows "builder_inv (seen @ map fst e) b'
       \<and> dom (map_of (currEvents b'))
           = dom (map_of (currEvents b)) - set (map snd e) \<union> set (map fst e)"
proof -
  from pe obtain owners child_attrs where ne: "e \<noteq> []"
    and ow: "collect (map (lookup (currEvents b)) (remdups (map snd e))) = Inr owners"
    and ca: "collect (map (lookup (eventDict b)) (remdups owners)) = Inr child_attrs"
    and b': "b' = \<lparr>currEvents =
             fold AList.delete (remdups (map snd e))
               (fold (\<lambda>p. AList.update p (RawEvent e))
                  (remdups ([p \<leftarrow> concat (map subpops child_attrs). p \<notin> set (remdups (map snd e))]
                            @ remdups (map fst e)))
                  (currEvents b)),
           eventDict =
             AList.update (RawEvent e)
               \<lparr>subpops = remdups ([p \<leftarrow> concat (map subpops child_attrs). p \<notin> set (remdups (map snd e))]
                                   @ remdups (map fst e)),
                parent_pops = remdups (map fst e),
                child_pops = zip (remdups (map snd e)) owners\<rparr>
               (eventDict b),
           eventEdgeList = eventEdgeList b @ map (\<lambda>c. (RawEvent e, c)) (remdups owners)\<rparr>"
    by (rule process_event_cases)
  define C where "C = map_of (currEvents b)"
  define D where "D = map_of (eventDict b)"
  define E where "E = set (eventEdgeList b)"
  define CP where "CP = set (map snd e)"
  define PP where "PP = set (map fst e)"
  define ev where "ev = RawEvent e"
  define SP where "SP = {q. q \<notin> CP \<and> (\<exists>k\<in>CP. C q = C k)} \<union> PP"
  define sub where "sub = remdups ([p \<leftarrow> concat (map subpops child_attrs). p \<notin> set (remdups (map snd e))]
                            @ remdups (map fst e))"
  define C' where "C' = map_of (currEvents b')"
  define D' where "D' = map_of (eventDict b')"
  from inv have i1: "distinct (map fst (currEvents b))"
    and i2: "dom C \<subseteq> set seen"
    and i3: "\<And>q c. C q = Some c \<Longrightarrow>
               \<exists>a. D c = Some a \<and> distinct (subpops a) \<and> set (subpops a) = {q'. C q' = Some c}"
    and i4: "\<And>e' a. D (RawEvent e') = Some a \<Longrightarrow> set (map fst e') \<subseteq> set seen"
    and i5: "\<And>x c. (x, c) \<in> E \<Longrightarrow> D c \<noteq> None \<and> (\<forall>q. C q \<noteq> Some c)"
    and i6: "\<And>c a. D c = Some a \<Longrightarrow> (\<exists>q. C q = Some c) \<or> c \<in> snd ` E"
    unfolding builder_inv_def C_def D_def E_def by blast+
  from collect_lookup_set [OF ow]
  have O: "set owners = {c. \<exists>k\<in>CP. C k = Some c}" and live: "\<forall>k\<in>CP. C k \<noteq> None"
    by (simp_all add: C_def CP_def)
  from collect_lookup_set [OF ca]
  have A: "set child_attrs = {a. \<exists>c\<in>set owners. D c = Some a}"
    by (simp add: D_def)
  have PPne: "PP \<noteq> {}" using ne by (simp add: PP_def)
  have PPfresh: "PP \<inter> set seen = {}" using fresh by (simp add: PP_def)
  have PPdead: "C q = None" if "q \<in> PP" for q
    using that PPfresh i2 by blast
  have evD: "D ev = None"
  proof (rule ccontr)
    assume "D ev \<noteq> None"
    then obtain a where "D (RawEvent e) = Some a" by (auto simp: ev_def)
    from i4 [OF this] have "PP \<subseteq> set seen" by (simp add: PP_def)
    with PPne PPfresh show False by blast
  qed
  have evC: "C q \<noteq> Some ev" for q
    using i3 [of q ev] evD by auto
  have evE: "(x, ev) \<notin> E" for x
    using i5 [of x ev] evD by auto
  have S0: "set (concat (map subpops child_attrs)) = {q. \<exists>k\<in>CP. C q = C k}"
  proof (intro set_eqI iffI)
    fix q assume "q \<in> set (concat (map subpops child_attrs))"
    then obtain a where a: "a \<in> set child_attrs" and q: "q \<in> set (subpops a)" by auto
    from a A O obtain c k where k: "k \<in> CP" and c: "C k = Some c" and d: "D c = Some a" by auto
    from i3 [OF c] d have "set (subpops a) = {q'. C q' = Some c}" by auto
    with q c have "C q = C k" by simp
    with k show "q \<in> {q. \<exists>k\<in>CP. C q = C k}" by blast
  next
    fix q assume "q \<in> {q. \<exists>k\<in>CP. C q = C k}"
    then obtain k where k: "k \<in> CP" and qk: "C q = C k" by auto
    from live k obtain c where c: "C k = Some c" by auto
    from i3 [OF c] obtain a where d: "D c = Some a" and s: "set (subpops a) = {q'. C q' = Some c}"
      by auto
    from k c d have "a \<in> set child_attrs" using A O by auto
    moreover from s qk c have "q \<in> set (subpops a)" by simp
    ultimately show "q \<in> set (concat (map subpops child_attrs))" by auto
  qed
  have sub_set: "set sub = SP"
    unfolding sub_def SP_def using S0 by (auto simp: CP_def PP_def)
  have sub_distinct: "distinct sub" by (simp add: sub_def)
  have C'_eq: "C' q = (if q \<in> CP then None else if q \<in> SP then Some ev else C q)" for q
  proof -
    have "currEvents b' = fold AList.delete (remdups (map snd e))
            (fold (\<lambda>p. AList.update p ev) sub (currEvents b))"
      by (simp add: b' sub_def ev_def)
    then have "C' q = (if q \<in> CP then None else if q \<in> set sub then Some ev else C q)"
      by (simp add: C'_def C_def CP_def map_of_fold_delete map_of_fold_update)
    then show ?thesis by (simp only: sub_set)
  qed
  have D'_eq: "D' x = (if x = ev then Some \<lparr>subpops = sub, parent_pops = remdups (map fst e),
                child_pops = zip (remdups (map snd e)) owners\<rparr> else D x)" for x
  proof -
    have "eventDict b' = AList.update ev \<lparr>subpops = sub, parent_pops = remdups (map fst e),
                child_pops = zip (remdups (map snd e)) owners\<rparr> (eventDict b)"
      by (simp add: b' sub_def ev_def)
    then show ?thesis by (simp add: D'_def D_def update_conv')
  qed
  have E'_eq: "set (eventEdgeList b') = E \<union> {(ev, c) | c. c \<in> set owners}"
    unfolding b' by (auto simp: E_def ev_def)
  have lost: "C' q \<noteq> Some c" if "c \<in> set owners" for q c
  proof
    assume q: "C' q = Some c"
    from that O obtain k where k: "k \<in> CP" and ck: "C k = Some c" by auto
    from ck evC have "c \<noteq> ev" by auto
    with q have "q \<notin> CP" "q \<notin> SP" "C q = Some c"
      by (auto simp: C'_eq split: if_splits)
    with k ck show False by (auto simp: SP_def)
  qed
  have kept: "C' q = Some c \<longleftrightarrow> C q = Some c" if "c \<noteq> ev" "c \<notin> set owners" for q c
  proof
    assume "C' q = Some c"
    with that show "C q = Some c" by (auto simp: C'_eq split: if_splits)
  next
    assume c: "C q = Some c"
    have "q \<notin> CP" using c that O by auto
    moreover have "q \<notin> SP"
    proof
      assume "q \<in> SP"
      then consider "q \<in> PP" | k where "k \<in> CP" "C q = C k" by (auto simp: SP_def)
      then show False
      proof cases
        case 1
        with PPdead c show False by auto
      next
        case 2
        with c that O show False by auto
      qed
    qed
    ultimately show "C' q = Some c" using c by (simp add: C'_eq)
  qed
  have new_owned: "C' q = Some ev \<longleftrightarrow> q \<in> SP" for q
  proof -
    have "q \<notin> CP" if "q \<in> SP"
      using that live PPdead by (auto simp: SP_def)
    then show ?thesis using evC by (auto simp: C'_eq)
  qed
  have c1: "distinct (map fst (currEvents b'))"
    unfolding b' using i1 by (simp add: distinct_fold_delete distinct_fold_update)
  have c2: "dom C' \<subseteq> set (seen @ map fst e)"
  proof
    fix q assume "q \<in> dom C'"
    then obtain c where c: "C' q = Some c" by auto
    show "q \<in> set (seen @ map fst e)"
    proof (cases "q \<in> SP")
      case True
      then consider "q \<in> PP" | k where "k \<in> CP" "C q = C k" by (auto simp: SP_def)
      then show ?thesis
      proof cases
        case 1
        then show ?thesis by (simp add: PP_def)
      next
        case 2
        with live have "q \<in> dom C" by (auto simp: domIff)
        with i2 show ?thesis by auto
      qed
    next
      case False
      with c have "C q = Some c" by (auto simp: C'_eq split: if_splits)
      with i2 show ?thesis by auto
    qed
  qed
  have c3: "\<exists>a. D' c = Some a \<and> distinct (subpops a) \<and> set (subpops a) = {q'. C' q' = Some c}"
    if "C' q = Some c" for q c
  proof (cases "c = ev")
    case True
    then show ?thesis using sub_set sub_distinct new_owned by (simp add: D'_eq)
  next
    case False
    from that lost have n: "c \<notin> set owners" by auto
    from that kept [OF False n] have "C q = Some c" by simp
    from i3 [OF this] obtain a where "D c = Some a" "distinct (subpops a)"
      "set (subpops a) = {q'. C q' = Some c}" by auto
    with False kept [OF False n] show ?thesis by (simp add: D'_eq)
  qed
  have c4: "set (map fst e') \<subseteq> set (seen @ map fst e)" if "D' (RawEvent e') = Some a" for e' a
  proof (cases "RawEvent e' = ev")
    case True
    then show ?thesis by (auto simp: ev_def)
  next
    case False
    with that have "D (RawEvent e') = Some a" by (simp add: D'_eq)
    from i4 [OF this] show ?thesis by auto
  qed
  have c5: "D' c \<noteq> None \<and> (\<forall>q. C' q \<noteq> Some c)" if "(x, c) \<in> set (eventEdgeList b')" for x c
  proof -
    from that consider "(x, c) \<in> E" | "c \<in> set owners" by (auto simp: E'_eq)
    then show ?thesis
    proof cases
      case 1
      from i5 [OF 1] have d: "D c \<noteq> None" and o: "\<forall>q. C q \<noteq> Some c" by auto
      from 1 evE have ne: "c \<noteq> ev" by auto
      have "c \<notin> set owners" using o O by auto
      from kept [OF ne this] o d show ?thesis by (simp add: D'_eq)
    next
      case 2
      with O obtain k where "C k = Some c" by auto
      from i3 [OF this] have "D c \<noteq> None" by auto
      with lost [OF 2] show ?thesis by (auto simp: D'_eq)
    qed
  qed
  have c6: "(\<exists>q. C' q = Some c) \<or> c \<in> snd ` set (eventEdgeList b')" if "D' c = Some a" for c a
  proof (cases "c = ev")
    case True
    from PPne obtain q where "q \<in> PP" by auto
    then have "q \<in> SP" by (simp add: SP_def)
    with True new_owned show ?thesis by auto
  next
    case False
    with that have d: "D c = Some a" by (simp add: D'_eq)
    show ?thesis
    proof (cases "c \<in> set owners")
      case True
      then have "(ev, c) \<in> set (eventEdgeList b')" by (simp add: E'_eq)
      then show ?thesis by force
    next
      case n: False
      from i6 [OF d] show ?thesis
      proof
        assume "\<exists>q. C q = Some c"
        with kept [OF False n] show ?thesis by auto
      next
        assume "c \<in> snd ` E"
        then show ?thesis by (auto simp: E'_eq)
      qed
    qed
  qed
  have c7: "dom C' = dom C - CP \<union> PP"
  proof (intro set_eqI iffI)
    fix q assume "q \<in> dom C'"
    then obtain c where c: "C' q = Some c" by auto
    then have n: "q \<notin> CP" by (auto simp: C'_eq split: if_splits)
    show "q \<in> dom C - CP \<union> PP"
    proof (cases "q \<in> SP")
      case True
      then consider "q \<in> PP" | k where "k \<in> CP" "C q = C k" by (auto simp: SP_def)
      then show ?thesis
      proof cases
        case 1
        then show ?thesis by simp
      next
        case 2
        with live have "q \<in> dom C" by (auto simp: domIff)
        with n show ?thesis by simp
      qed
    next
      case False
      with c n have "C q = Some c" by (auto simp: C'_eq)
      with n show ?thesis by auto
    qed
  next
    fix q assume "q \<in> dom C - CP \<union> PP"
    then consider "q \<in> PP" | "q \<in> dom C" "q \<notin> CP" by auto
    then show "q \<in> dom C'"
    proof cases
      case 1
      then have "q \<in> SP" by (simp add: SP_def)
      with new_owned show ?thesis by auto
    next
      case 2
      then show ?thesis by (auto simp: C'_eq)
    qed
  qed
  have "builder_inv (seen @ map fst e) b'"
    unfolding builder_inv_def
    using c1 c2 c3 c4 c5 c6 unfolding C'_def D'_def by blast
  moreover from c7 have "dom (map_of (currEvents b'))
           = dom (map_of (currEvents b)) - set (map snd e) \<union> set (map fst e)"
    by (simp add: C'_def C_def CP_def PP_def)
  ultimately show ?thesis ..
qed

lemma collect_lookup_result:
  "collect (map (lookup al) ks)
     = (if set ks \<subseteq> dom (map_of al) then Inr (map (\<lambda>k. the (map_of al k)) ks) else Inl KeyError)"
  by (induction ks) (auto simp: lookup_def split: option.splits)

lemma process_event_succeeds:
  assumes inv: "builder_inv seen b" and len: "length e = 2" and roles: "role_count e = 3"
    and live: "set (map snd e) \<subseteq> dom (map_of (currEvents b))"
  shows "\<exists>b'. process_event e b = Inr b'"
proof -
  let ?CP = "remdups (map snd e)"
  let ?owners = "map (\<lambda>k. the (map_of (currEvents b) k)) ?CP"
  from len have ne: "e \<noteq> []" by auto
  have ow: "collect (map (lookup (currEvents b)) ?CP) = Inr ?owners"
    using live by (simp add: collect_lookup_result)
  from ne have "?CP \<noteq> []" by (cases e) auto
  then have "?owners \<noteq> []" by simp
  then have "remdups ?owners \<noteq> []" by (metis remdups_eq_nil_iff)
  then have l1: "1 \<le> length (remdups ?owners)" by (cases "remdups ?owners") auto
  have "length (remdups ?owners) \<le> length ?owners" by (rule length_remdups_leq)
  also have "\<dots> = length ?CP" by simp
  also have "\<dots> \<le> length (map snd e)" by (rule length_remdups_leq)
  finally have l2: "length (remdups ?owners) \<le> 2" using len by simp
  have "set (remdups ?owners) \<subseteq> dom (map_of (eventDict b))"
  proof
    fix c assume "c \<in> set (remdups ?owners)"
    then obtain k where k: "k \<in> set (map snd e)" and c: "c = the (map_of (currEvents b) k)" by auto
    from k live obtain c' where "map_of (currEvents b) k = Some c'" by blast
    with c have "map_of (currEvents b) k = Some c" by simp
    with inv show "c \<in> dom (map_of (eventDict b))" unfolding builder_inv_def by blast
  qed
  then obtain attrs where ca: "collect (map (lookup (eventDict b)) (remdups ?owners)) = Inr attrs"
    by (simp add: collect_lookup_result)
  from l1 l2 have "length (remdups ?owners) = 1 \<or> length (remdups ?owners) = 2" by arith
  with ne len roles ow ca show ?thesis
    unfolding process_event_def Let_def role_count_def by simp
qed

lemma map_of_leaf_owner:
  "map_of (map (\<lambda>l. (l, LeafEvent l)) ls) q = (if q \<in> set ls then Some (LeafEvent q) else None)"
  by (induction ls) auto

lemma map_of_leaf_event:
  "map_of (map (\<lambda>l. (LeafEvent l, A l)) ls) ev
     = (case ev of LeafEvent l \<Rightarrow> if l \<in> set ls then Some (A l) else None | RawEvent e \<Rightarrow> None)"
  by (induction ls) (auto split: event.splits)

lemma initial_builder_inv:
  "builder_inv (leaves g) (initial_builder g)"
  "dom (map_of (currEvents (initial_builder g))) = set (leaves g)"
proof -
  have "distinct (map fst (currEvents (initial_builder g)))"
    by (simp add: initial_builder_def comp_def distinct_leaves)
  then show "builder_inv (leaves g) (initial_builder g)"
    unfolding builder_inv_def
    by (auto simp: initial_builder_def map_of_leaf_owner map_of_leaf_event
          split: if_splits event.splits)
  show "dom (map_of (currEvents (initial_builder g))) = set (leaves g)"
    by (auto simp: initial_builder_def map_of_leaf_owner split: if_splits)
qed

lemma process_events_well_formed:
  assumes "builder_inv seen b" "dom (map_of (currEvents b)) = set live" "well_formed seen live es"
  shows "\<exists>b' seen' x. process_events es b = Inr b' \<and> builder_inv seen' b'
           \<and> dom (map_of (currEvents b')) = {x}"
  using assms
proof (induction es arbitrary: seen live b)
  case Nil
  from Nil.prems(3) obtain x where "live = [x]" by (cases live) auto
  with Nil.prems show ?case by auto
next
  case (Cons e es)
  from Cons.prems(3) have len: "length e = 2" and roles: "role_count e = 3"
    and lv: "set (map snd e) \<subseteq> set live" and fr: "set (map fst e) \<inter> set seen = {}"
    and rest: "well_formed (seen @ map fst e)
            ([q \<leftarrow> live. q \<notin> set (map snd e)] @ remdups (map fst e)) es"
    by (auto simp: list_all_iff)
  from lv Cons.prems(2) have "set (map snd e) \<subseteq> dom (map_of (currEvents b))" by simp
  from process_event_succeeds [OF Cons.prems(1) len roles this]
  obtain b1 where b1: "process_event e b = Inr b1" by auto
  from process_event_inv [OF Cons.prems(1) b1 fr]
  have i: "builder_inv (seen @ map fst e) b1"
    and d: "dom (map_of (currEvents b1))
           = dom (map_of (currEvents b)) - set (map snd e) \<union> set (map fst e)" by auto
  from d Cons.prems(2)
  have "dom (map_of (currEvents b1)) = set ([q \<leftarrow> live. q \<notin> set (map snd e)] @ remdups (map fst e))"
    by auto
  from Cons.IH [OF i this rest] b1 show ?case by simp
qed

lemma single_entry:
  assumes "distinct (map fst al)" "dom (map_of al) = {x}"
  shows "\<exists>v. al = [(x, v)]"
proof -
  from assms(2) have f: "fst ` set al = {x}" by (simp add: dom_map_of_conv_image_fst)
  then obtain k v rest where al: "al = (k, v) # rest" by (cases al) auto
  with f have k: "k = x" by auto
  have "rest = []"
  proof (cases rest)
    case (Cons kv rest')
    with f al have "fst kv = x" by auto
    with assms(1) al k Cons show ?thesis by auto
  qed simp
  with al k show ?thesis by simp
qed

lemma process_events_roles:
  "process_events es b = Inr b' \<Longrightarrow> \<forall>e\<in>set es. role_count e = 3"
proof (induction es arbitrary: b)
  case (Cons e es)
  from Cons.prems obtain b1 where b1: "process_event e b = Inr b1"
    and r: "process_events es b1 = Inr b'" by (auto split: sum.splits)
  from b1 have "role_count e = 3" by (rule process_event_cases)
  with Cons.IH [OF r] show ?case by simp
qed simp

lemma process_events_append:
  "process_events (pre @ es) b
     = (case process_events pre b of Inl err \<Rightarrow> Inl err | Inr b1 \<Rightarrow> process_events es b1)"
  by (induction pre arbitrary: b) (auto split: sum.splits)

lemma process_event_bad_roles:
  assumes "role_count e \<noteq> 3"
  shows "process_event e b
     = Inl (if e = [] then ValueError
            else if set (map snd e) \<subseteq> fst ` set (currEvents b) then AssertionError
            else KeyError)"
  using assms unfolding process_event_def Let_def role_count_def
  by (simp add: collect_lookup_result dom_map_of_conv_image_fst)

lemma event_tree_of_well_formed:
  assumes "well_formed_events g"
  shows "\<exists>t pop a. eventTree g = Inr t \<and> live_at_end g = Inr [(pop, root t)]
           \<and> map_of (tree_nodes t) (root t) = Some a \<and> subpops a = [pop]
           \<and> {ev \<in> fst ` set (tree_nodes t). ev \<notin> snd ` set (tree_edges t)} = {root t}"
proof -
  from assms have "well_formed (leaves g) (leaves g) (events g)"
    by (simp add: well_formed_events_def)
  from process_events_well_formed [OF initial_builder_inv this]
  obtain b seen x where b: "process_events (events g) (initial_builder g) = Inr b"
    and inv: "builder_inv seen b" and d: "dom (map_of (currEvents b)) = {x}" by auto
  from inv have dist: "distinct (map fst (currEvents b))" by (simp add: builder_inv_def)
  from single_entry [OF dist d] obtain v where c: "currEvents b = [(x, v)]" by auto
  let ?t = "\<lparr>tree_edges = eventEdgeList b, tree_nodes = eventDict b, root = v\<rparr>"
  from b c have t: "eventTree g = Inr ?t" by (simp add: eventTree_def)
  from b c have l: "live_at_end g = Inr [(x, root ?t)]" by (simp add: live_at_end_def)
  have own: "map_of (currEvents b) q = Some ev \<longleftrightarrow> q = x \<and> ev = v" for q ev
    by (auto simp: c)
  from inv own [of x v] obtain a where a: "map_of (eventDict b) v = Some a"
    and da: "distinct (subpops a)"
    and sa: "set (subpops a) = {q'. map_of (currEvents b) q' = Some v}"
    unfolding builder_inv_def by blast
  from sa own have "set (subpops a) = {x}" by auto
  with da have s: "subpops a = [x]"
    by (cases "subpops a"; cases "tl (subpops a)") auto
  have r: "{ev \<in> fst ` set (eventDict b). ev \<notin> snd ` set (eventEdgeList b)} = {v}"
  proof (intro set_eqI iffI)
    fix ev assume "ev \<in> {ev \<in> fst ` set (eventDict b). ev \<notin> snd ` set (eventEdgeList b)}"
    then have m: "ev \<in> fst ` set (eventDict b)" and n: "ev \<notin> snd ` set (eventEdgeList b)" by auto
    from m obtain a' where "map_of (eventDict b) ev = Some a'"
      by (metis domD dom_map_of_conv_image_fst)
    with inv n have "\<exists>q. map_of (currEvents b) q = Some ev" unfolding builder_inv_def by blast
    with own show "ev \<in> {v}" by auto
  next
    fix ev assume "ev \<in> {v}"
    then have ev: "ev = v" by simp
    from a have "v \<in> fst ` set (eventDict b)"
      by (metis domI dom_map_of_conv_image_fst)
    moreover have "v \<notin> snd ` set (eventEdgeList b)"
    proof
      assume "v \<in> snd ` set (eventEdgeList b)"
      then obtain y where "(y, v) \<in> set (eventEdgeList b)" by auto
      with inv have "map_of (currEvents b) x \<noteq> Some v" unfolding builder_inv_def by blast
      with own show False by simp
    qed
    ultimately show "ev \<in> {ev \<in> fst ` set (eventDict b). ev \<notin> snd ` set (eventEdgeList b)}"
      using ev by simp
  qed
  from t l a s r show ?thesis by (intro exI [of _ ?t] exI [of _ x] exI [of _ a]) simp
qed

lemma final_assertion:
  assumes "live_at_end g = Inr live" "length live \<noteq> 1"
  shows "eventTree g = Inl AssertionError"
proof -
  from assms(1) obtain b where b: "process_events (events g) (initial_builder g) = Inr b"
    and l: "currEvents b = live"
    by (auto simp: live_at_end_def split: sum.splits)
  from assms(2) l have "\<nexists>k v. currEvents b = [(k, v)]" by auto
  then have "(case currEvents b of
             [(k, v)] \<Rightarrow> Inr \<lparr>tree_edges = eventEdgeList b, tree_nodes = eventDict b, root = v\<rparr>
           | _ \<Rightarrow> Inl AssertionError) = Inl AssertionError"
    by (auto split: list.splits)
  with b show ?thesis by (simp add: eventTree_def)
qed

lemma bad_roles_reached:
  assumes "events g = pre @ e # post" "process_events pre (initial_builder g) = Inr b"
    "role_count e \<noteq> 3"
  shows "eventTree g
     = Inl (if e = [] then ValueError
            else if set (map snd e) \<subseteq> fst ` set (currEvents b) then AssertionError
            else KeyError)"
  using assms
  by (simp add: eventTree_def process_events_append process_event_bad_roles
        del: set_map)

lemma bad_roles_fail:
  assumes "e \<in> set (events g)" "role_count e \<noteq> 3"
  shows "\<exists>err. eventTree g = Inl err"
proof (cases "process_events (events g) (initial_builder g)")
  case (Inl err)
  then show ?thesis by (simp add: eventTree_def)
next
  case (Inr b)
  from process_events_roles [OF this] assms show ?thesis by auto
qed

lemma admix_graph_well_formed: "well_formed_events admix_graph"
  by (simp add: well_formed_events_def role_count_def leaves_def admix_graph_def)

lemma twice_consumed_eventTree: "eventTree twice_consumed_graph = Inl KeyError"
  by (simp add: nc_eval twice_consumed_graph_def)

lemma no_event_live:
  "live_at_end (two_leaf_graph\<lparr>events := []\<rparr>)
     = Inr [(''a'', LeafEvent ''a''), (''b'', LeafEvent ''b'')]"
  by (simp add: live_at_end_def initial_builder_def leaves_def two_leaf_graph_def)

text \<open>
  Claim C6, as the code has it. On a well-formed graph \<^verbatim>\<open>eventTree\<close> returns a tree:
  one population is live at the end, the event that owns it is the root, the root's
  \<^verbatim>\<open>'subpops'\<close> is that one population, and the root is the only event of the tree
  without an incoming edge. The construction fails by the final assertion when the loop
  ends with a number of live populations other than one. A raw event whose roles do not
  total three always makes the construction fail: when the loop reaches it, by the loop's
  assertion if all its child populations are live, and otherwise by the KeyError of the
  lookup that precedes the assertion (the ValueError of the unpacking for an empty event).
\<close>

theorem eventTree_single_root:
  "(well_formed_events g \<longrightarrow>
      (\<exists>t pop a. eventTree g = Inr t \<and> live_at_end g = Inr [(pop, root t)]
           \<and> map_of (tree_nodes t) (root t) = Some a \<and> subpops a = [pop]
           \<and> {ev \<in> fst ` set (tree_nodes t). ev \<notin> snd ` set (tree_edges t)} = {root t}))
   \<and> (live_at_end g = Inr live \<longrightarrow> length live \<noteq> 1 \<longrightarrow> eventTree g = Inl AssertionError)
   \<and> (events g = pre @ e # post \<longrightarrow> process_events pre (initial_builder g) = Inr b \<longrightarrow>
        role_count e \<noteq> 3 \<longrightarrow>
        eventTree g
          = Inl (if e = [] then ValueError
                 else if set (map snd e) \<subseteq> fst ` set (currEvents b) then AssertionError
                 else KeyError))
   \<and> (e' \<in> set (events g) \<longrightarrow> role_count e' \<noteq> 3 \<longrightarrow> (\<exists>err. eventTree g = Inl err))"
  using event_tree_of_well_formed [of g] final_assertion [of g live]
    bad_roles_reached [of g pre e post b] bad_roles_fail [of e' g]
  by (intro conjI impI) assumption+

theorem eventTree_single_root_witness:
  "well_formed_events admix_graph
   \<and> (\<exists>t pop a. eventTree admix_graph = Inr t \<and> live_at_end admix_graph = Inr [(pop, root t)]
           \<and> map_of (tree_nodes t) (root t) = Some a \<and> subpops a = [pop]
           \<and> {ev \<in> fst ` set (tree_nodes t). ev \<notin> snd ` set (tree_edges t)} = {root t})
   \<and> live_at_end (two_leaf_graph\<lparr>events := []\<rparr>)
       = Inr [(''a'', LeafEvent ''a''), (''b'', LeafEvent ''b'')]
   \<and> eventTree (two_leaf_graph\<lparr>events := []\<rparr>) = Inl AssertionError
   \<and> role_count [(''r'', ''a'')] = 2
   \<and> eventTree (two_leaf_graph\<lparr>events := [[(''r'', ''a'')]]\<rparr>) = Inl AssertionError"
proof -
  note T = eventTree_single_root
  have 1: "\<exists>t pop a. eventTree admix_graph = Inr t \<and> live_at_end admix_graph = Inr [(pop, root t)]
           \<and> map_of (tree_nodes t) (root t) = Some a \<and> subpops a = [pop]
           \<and> {ev \<in> fst ` set (tree_nodes t). ev \<notin> snd ` set (tree_edges t)} = {root t}"
    using T [where g = admix_graph] admix_graph_well_formed by blast
  have 2: "eventTree (two_leaf_graph\<lparr>events := []\<rparr>) = Inl AssertionError"
    using T [where g = "two_leaf_graph\<lparr>events := []\<rparr>"
        and live = "[(''a'', LeafEvent ''a''), (''b'', LeafEvent ''b'')]"] no_event_live
    by simp
  have r: "role_count [(''r'', ''a'')] = 2" by (simp add: role_count_def)
  have 3: "eventTree (two_leaf_graph\<lparr>events := [[(''r'', ''a'')]]\<rparr>) = Inl AssertionError"
    using T [where g = "two_leaf_graph\<lparr>events := [[(''r'', ''a'')]]\<rparr>" and pre = "[]"
        and e = "[(''r'', ''a'')]" and post = "[]"
        and b = "initial_builder (two_leaf_graph\<lparr>events := [[(''r'', ''a'')]]\<rparr>)"] r
    by (simp add: initial_builder_def leaves_def two_leaf_graph_def)
  from admix_graph_well_formed 1 no_event_live 2 r 3 show ?thesis by (intro conjI)
qed

text \<open>
  Claim C6 as stated fails: the second event of this list has four population roles, and
  the construction does not fail by the assertion but by a KeyError, raised when the owner
  of the consumed population \<open>a\<close> is looked up before the assertion is reached.
\<close>

theorem eventTree_role_count_key_error:
  "[(''s'', ''a''), (''t'', ''b'')] \<in> set (events twice_consumed_graph)
   \<and> role_count [(''s'', ''a''), (''t'', ''b'')] = 4
   \<and> eventTree twice_consumed_graph = Inl KeyError
   \<and> eventTree twice_consumed_graph \<noteq> Inl AssertionError"
  by (simp add: twice_consumed_eventTree) (simp add: role_count_def twice_consumed_graph_def)

end
